theory Spec2Isabelle
  imports Main "HOL-Library.Multiset"
begin

section \<open>Values and errors of the host language\<close>

text \<open>
  A matcher of the source is typed \<open>string | null\<close>, but the POUNDS matcher can also
  return \<open>undefined\<close> (indexing an empty array). All three are kept apart; \<open>truthy\<close>
  is the test \<open>if (value)\<close> of \<open>parseToken\<close>: \<open>null\<close>, \<open>undefined\<close> and the empty
  string are falsy, every other string is truthy.

  Strings are lists of characters. The patterns of the catalog name ASCII characters
  only and have no wildcard, so the unit a character stands for (a UTF-16 code unit in
  the source) does not change which strings match.
\<close>

datatype jsval = Null | Undefined | Str string

fun truthy :: "jsval \<Rightarrow> bool" where
  "truthy Null = False"
| "truthy Undefined = False"
| "truthy (Str v) = (v \<noteq> [])"

text \<open>
  Reading a property of \<open>undefined\<close> throws a TypeError. \<open>at xs i\<close> is the array read
  \<open>xs[i]\<close> followed by a property access: \<open>None\<close> stands for the thrown TypeError.
\<close>

definition at :: "'a list \<Rightarrow> nat \<Rightarrow> 'a option" where
  "at xs i = (if i < length xs then Some (xs ! i) else None)"

section \<open>Regular expressions\<close>

text \<open>
  The fragment of the source's regular expressions: literals, \<open>\d\<close>, a character
  class, the assertions \<open>^\<close> and \<open>$\<close> (no multiline flag), sequence, alternation, the
  quantifiers \<open>?\<close>, \<open>+\<close> and \<open>+?\<close>, capturing groups (numbered by their opening
  parenthesis) and non-capturing groups.
\<close>

datatype regex =
    Eps
  | Lit string
  | Chr char
  | Digit
  | OneOf "char list"
  | Bol
  | Eol
  | Seq regex regex
  | Alt regex regex
  | Opt regex
  | Plus regex
  | PlusLazy regex
  | Grp nat regex
  | NGrp regex

fun seqs :: "regex list \<Rightarrow> regex" where
  "seqs [] = Eps"
| "seqs [r] = r"
| "seqs (r # rs) = Seq r (seqs rs)"

definition is_digit :: "char \<Rightarrow> bool" where
  "is_digit c = (c \<in> set ''0123456789'')"

text \<open>
  A matcher state is the index reached, the input from that index on, and the captures
  made so far (group number and captured text, latest first).
\<close>

type_synonym caps = "(nat \<times> string) list"
type_synonym mstate = "nat \<times> string \<times> caps"

fun lit_rest :: "string \<Rightarrow> string \<Rightarrow> string option" where
  "lit_rest [] ys = Some ys"
| "lit_rest (x # xs) [] = None"
| "lit_rest (x # xs) (y # ys) = (if x = y then lit_rest xs ys else None)"

primrec groups_in :: "regex \<Rightarrow> nat list" where
  "groups_in Eps = []"
| "groups_in (Lit l) = []"
| "groups_in (Chr a) = []"
| "groups_in Digit = []"
| "groups_in (OneOf cs) = []"
| "groups_in Bol = []"
| "groups_in Eol = []"
| "groups_in (Seq r1 r2) = groups_in r1 @ groups_in r2"
| "groups_in (Alt r1 r2) = groups_in r1 @ groups_in r2"
| "groups_in (Opt r) = groups_in r"
| "groups_in (Plus r) = groups_in r"
| "groups_in (PlusLazy r) = groups_in r"
| "groups_in (Grp k r) = k # groups_in r"
| "groups_in (NGrp r) = groups_in r"

text \<open>Entering an iteration of a quantifier resets the captures of the groups in it.\<close>

definition clear :: "regex \<Rightarrow> caps \<Rightarrow> caps" where
  "clear r c = filter (\<lambda>(k, v). k \<notin> set (groups_in r)) c"

text \<open>
  The iterations of \<open>r+\<close> and \<open>r+?\<close> after the first one. \<open>f\<close> runs the quantified
  expression once. An iteration that consumes nothing is rejected. A greedy quantifier
  tries one more iteration before stopping, a lazy one stops first. Every accepted
  iteration consumes a character, so the number of iterations left is bounded by the
  length of the remaining input, which is what the first argument is started with.
\<close>

fun iterations :: "nat \<Rightarrow> (nat \<Rightarrow> string \<Rightarrow> caps \<Rightarrow> mstate list) \<Rightarrow> bool \<Rightarrow> nat \<Rightarrow> string \<Rightarrow> caps
    \<Rightarrow> mstate list" where
  "iterations 0 f greedy p rest c = [(p, rest, c)]"
| "iterations (Suc n) f greedy p rest c =
     (let again = concat (map (\<lambda>(p', rest', c'). if p' = p then [] else iterations n f greedy p' rest' c')
                            (f p rest c))
      in if greedy then again @ [(p, rest, c)] else (p, rest, c) # again)"

text \<open>
  The backtracking matcher: \<open>ms r p rest c\<close> lists, in the order in which a
  backtracking engine tries them, the states in which a match of \<open>r\<close> can end when it
  starts at index \<open>p\<close> with \<open>rest\<close> still to read. The head of the list of the whole
  expression is the match the engine returns.
\<close>

primrec ms :: "regex \<Rightarrow> nat \<Rightarrow> string \<Rightarrow> caps \<Rightarrow> mstate list" where
  "ms Eps p rest c = [(p, rest, c)]"
| "ms (Lit l) p rest c =
     (case lit_rest l rest of None \<Rightarrow> [] | Some rest' \<Rightarrow> [(p + length l, rest', c)])"
| "ms (Chr a) p rest c =
     (case rest of [] \<Rightarrow> [] | x # rest' \<Rightarrow> if x = a then [(Suc p, rest', c)] else [])"
| "ms Digit p rest c =
     (case rest of [] \<Rightarrow> [] | x # rest' \<Rightarrow> if is_digit x then [(Suc p, rest', c)] else [])"
| "ms (OneOf cs) p rest c =
     (case rest of [] \<Rightarrow> [] | x # rest' \<Rightarrow> if x \<in> set cs then [(Suc p, rest', c)] else [])"
| "ms Bol p rest c = (if p = 0 then [(p, rest, c)] else [])"
| "ms Eol p rest c = (if rest = [] then [(p, rest, c)] else [])"
| "ms (Seq r1 r2) p rest c =
     concat (map (\<lambda>(p', rest', c'). ms r2 p' rest' c') (ms r1 p rest c))"
| "ms (Alt r1 r2) p rest c = ms r1 p rest c @ ms r2 p rest c"
| "ms (Opt r) p rest c =
     filter (\<lambda>(p', rest', c'). p' \<noteq> p) (ms r p rest (clear r c)) @ [(p, rest, c)]"
| "ms (Plus r) p rest c =
     concat (map (\<lambda>(p', rest', c').
                    iterations (length rest') (\<lambda>q s d. ms r q s (clear r d)) True p' rest' c')
                 (ms r p rest (clear r c)))"
| "ms (PlusLazy r) p rest c =
     concat (map (\<lambda>(p', rest', c').
                    iterations (length rest') (\<lambda>q s d. ms r q s (clear r d)) False p' rest' c')
                 (ms r p rest (clear r c)))"
| "ms (Grp k r) p rest c =
     map (\<lambda>(p', rest', c'). (p', rest', (k, take (p' - p) rest) # c')) (ms r p rest c)"
| "ms (NGrp r) p rest c = ms r p rest c"

text \<open>
  \<open>s.match(re)\<close> for a regular expression without the global flag: the first index,
  from the left, at which the expression matches, with the matched text and the
  captures; \<open>null\<close> (here \<open>None\<close>) when there is none.
\<close>

record js_match_result =
  index :: nat
  whole :: string
  groups :: caps

fun search :: "regex \<Rightarrow> nat \<Rightarrow> string \<Rightarrow> js_match_result option" where
  "search r k rest =
     (case ms r k rest [] of
        (p', rest', c') # others \<Rightarrow> Some \<lparr>index = k, whole = take (p' - k) rest, groups = c'\<rparr>
      | [] \<Rightarrow> (case rest of [] \<Rightarrow> None | x # rest' \<Rightarrow> search r (Suc k) rest'))"

definition js_match :: "string \<Rightarrow> regex \<Rightarrow> js_match_result option" where
  "js_match s r = search r 0 s"

text \<open>\<open>m[k]\<close>: the whole match for 0, else the capture, \<open>undefined\<close> when the group took no part.\<close>

definition grp :: "js_match_result \<Rightarrow> nat \<Rightarrow> jsval" where
  "grp m k = (if k = 0 then Str (whole m)
              else case map_of (groups m) k of None \<Rightarrow> Undefined | Some v \<Rightarrow> Str v)"

section \<open>What can be read off a pattern\<close>

text \<open>
  Four syntactic checks on a pattern, each sound for the matcher (proved below):
  every match of the pattern starts at index 0; every match ends at the end of the
  input; the pattern can match without consuming; and the characters a non-empty
  matched text can end with.
\<close>

primrec starts_at_bol :: "regex \<Rightarrow> bool" where
  "starts_at_bol Eps = False"
| "starts_at_bol (Lit l) = False"
| "starts_at_bol (Chr a) = False"
| "starts_at_bol Digit = False"
| "starts_at_bol (OneOf cs) = False"
| "starts_at_bol Bol = True"
| "starts_at_bol Eol = False"
| "starts_at_bol (Seq r1 r2) = starts_at_bol r1"
| "starts_at_bol (Alt r1 r2) = (starts_at_bol r1 \<and> starts_at_bol r2)"
| "starts_at_bol (Opt r) = False"
| "starts_at_bol (Plus r) = False"
| "starts_at_bol (PlusLazy r) = False"
| "starts_at_bol (Grp k r) = starts_at_bol r"
| "starts_at_bol (NGrp r) = starts_at_bol r"

primrec ends_at_eol :: "regex \<Rightarrow> bool" where
  "ends_at_eol Eps = False"
| "ends_at_eol (Lit l) = False"
| "ends_at_eol (Chr a) = False"
| "ends_at_eol Digit = False"
| "ends_at_eol (OneOf cs) = False"
| "ends_at_eol Bol = False"
| "ends_at_eol Eol = True"
| "ends_at_eol (Seq r1 r2) = ends_at_eol r2"
| "ends_at_eol (Alt r1 r2) = (ends_at_eol r1 \<and> ends_at_eol r2)"
| "ends_at_eol (Opt r) = False"
| "ends_at_eol (Plus r) = False"
| "ends_at_eol (PlusLazy r) = False"
| "ends_at_eol (Grp k r) = ends_at_eol r"
| "ends_at_eol (NGrp r) = ends_at_eol r"

primrec nullable :: "regex \<Rightarrow> bool" where
  "nullable Eps = True"
| "nullable (Lit l) = (l = [])"
| "nullable (Chr a) = False"
| "nullable Digit = False"
| "nullable (OneOf cs) = False"
| "nullable Bol = True"
| "nullable Eol = True"
| "nullable (Seq r1 r2) = (nullable r1 \<and> nullable r2)"
| "nullable (Alt r1 r2) = (nullable r1 \<or> nullable r2)"
| "nullable (Opt r) = True"
| "nullable (Plus r) = nullable r"
| "nullable (PlusLazy r) = nullable r"
| "nullable (Grp k r) = nullable r"
| "nullable (NGrp r) = nullable r"

primrec last_chars :: "regex \<Rightarrow> char list" where
  "last_chars Eps = []"
| "last_chars (Lit l) = (if l = [] then [] else [last l])"
| "last_chars (Chr a) = [a]"
| "last_chars Digit = ''0123456789''"
| "last_chars (OneOf cs) = cs"
| "last_chars Bol = []"
| "last_chars Eol = []"
| "last_chars (Seq r1 r2) = last_chars r2 @ (if nullable r2 then last_chars r1 else [])"
| "last_chars (Alt r1 r2) = last_chars r1 @ last_chars r2"
| "last_chars (Opt r) = last_chars r"
| "last_chars (Plus r) = last_chars r"
| "last_chars (PlusLazy r) = last_chars r"
| "last_chars (Grp k r) = last_chars r"
| "last_chars (NGrp r) = last_chars r"

text \<open>\<open>spans f\<close>: every state \<open>f\<close> returns is reached by consuming a prefix of the input.\<close>

definition spans :: "(nat \<Rightarrow> string \<Rightarrow> caps \<Rightarrow> mstate list) \<Rightarrow> bool" where
  "spans f \<longleftrightarrow> (\<forall>p rest c p' rest' c'. (p', rest', c') \<in> set (f p rest c)
      \<longrightarrow> (\<exists>w. rest = w @ rest' \<and> p' = p + length w))"

section \<open>The field specification catalog\<close>

text \<open>The interfaces \<open>IFieldMatcher\<close> and \<open>ISpecField\<close>.\<close>

record field_matcher =
  fm_kind :: string
  fm_match :: "string \<Rightarrow> jsval"

record spec_field =
  sf_kind :: string
  matchers :: "field_matcher list"

subsection \<open>The patterns, as the source writes them\<close>

text \<open>\<^verbatim>\<open>/^((FLANGE)|(FLNG)|(FLG))$/\<close>\<close>

definition re_FLANGE :: regex where
  "re_FLANGE =
     seqs [Bol,
           Grp 1 (Alt (Grp 2 (Lit ''FLANGE'')) (Alt (Grp 3 (Lit ''FLNG'')) (Grp 4 (Lit ''FLG'')))),
           Eol]"

text \<open>\<^verbatim>\<open>/^PIPE$/\<close>\<close>

definition re_PIPE :: regex where
  "re_PIPE = seqs [Bol, Lit ''PIPE'', Eol]"

text \<open>\<^verbatim>\<open>/^(\d+(?:\.\d)?)\"$/\<close> (character 0x22 is the double quote)\<close>

definition re_INCHES :: regex where
  "re_INCHES =
     seqs [Bol,
           Grp 1 (seqs [Plus Digit, Opt (NGrp (seqs [Chr (CHR ''.''), Digit]))]),
           Chr (CHR 0x22),
           Eol]"

text \<open>\<^verbatim>\<open>/^((WE?LD ?NE?CK( FLA?NGE?)?)|(WNF?)(WELD))$/\<close>\<close>

definition re_WELD_NECK :: regex where
  "re_WELD_NECK =
     seqs [Bol,
           Grp 1 (Alt (Grp 2 (seqs [Chr (CHR ''W''), Opt (Chr (CHR ''E'')), Lit ''LD'',
                                    Opt (Chr (CHR '' '')),
                                    Chr (CHR ''N''), Opt (Chr (CHR ''E'')), Lit ''CK'',
                                    Opt (Grp 3 (seqs [Lit '' FL'', Opt (Chr (CHR ''A'')),
                                                      Lit ''NG'', Opt (Chr (CHR ''E''))]))]))
                      (seqs [Grp 4 (seqs [Lit ''WN'', Opt (Chr (CHR ''F''))]),
                             Grp 5 (Lit ''WELD'')])),
           Eol]"

text \<open>
  \<^verbatim>\<open>/^((\d\d\d\#)|(\d\d\d (LB)|(PSI))|(CL \d\d\d))$/\<close>: the third group is the
  alternation of \<^verbatim>\<open>\d\d\d (LB)\<close> and \<^verbatim>\<open>(PSI)\<close>.
\<close>

definition re_POUNDS :: regex where
  "re_POUNDS =
     seqs [Bol,
           Grp 1 (Alt (Grp 2 (seqs [Digit, Digit, Digit, Chr (CHR ''#'')]))
                 (Alt (Grp 3 (Alt (seqs [Digit, Digit, Digit, Chr (CHR '' ''), Grp 4 (Lit ''LB'')])
                                  (Grp 5 (Lit ''PSI''))))
                      (Grp 6 (seqs [Lit ''CL '', Digit, Digit, Digit])))),
           Eol]"

text \<open>\<^verbatim>\<open>/\d+/\<close>, the extraction of the POUNDS matcher\<close>

definition re_DIGITS :: regex where
  "re_DIGITS = Plus Digit"

text \<open>\<^verbatim>\<open>/^S(?:CH(?:EDULE)?)?[\- ](\d+)$/\<close>\<close>

definition re_SCHEDULE_INCHES :: regex where
  "re_SCHEDULE_INCHES =
     seqs [Bol, Chr (CHR ''S''),
           Opt (NGrp (seqs [Lit ''CH'', Opt (NGrp (Lit ''EDULE''))])),
           OneOf ''- '',
           Grp 1 (Plus Digit),
           Eol]"

text \<open>
  \<^verbatim>\<open>/^(S(CH(EDULE)?)? (STD)|(STANDARD))$/\<close>: the first group is the alternation of
  \<^verbatim>\<open>S(CH(EDULE)?)? (STD)\<close> and \<^verbatim>\<open>(STANDARD)\<close>.
\<close>

definition re_SCHEDULE_STANDARD :: regex where
  "re_SCHEDULE_STANDARD =
     seqs [Bol,
           Grp 1 (Alt (seqs [Chr (CHR ''S''),
                             Opt (Grp 2 (seqs [Lit ''CH'', Opt (Grp 3 (Lit ''EDULE''))])),
                             Chr (CHR '' ''),
                             Grp 4 (Lit ''STD'')])
                      (Grp 5 (Lit ''STANDARD''))),
           Eol]"

text \<open>\<^verbatim>\<open>/^((XH)|(XHB)|(EXTRA HEAVY))$/\<close>\<close>

definition re_SCHEDULE_EXTRA_HEAVY :: regex where
  "re_SCHEDULE_EXTRA_HEAVY =
     seqs [Bol,
           Grp 1 (Alt (Grp 2 (Lit ''XH'')) (Alt (Grp 3 (Lit ''XHB'')) (Grp 4 (Lit ''EXTRA HEAVY'')))),
           Eol]"

text \<open>\<^verbatim>\<open>/^(ASME B\d+\.?\d+?)$/\<close>\<close>

definition re_ASME_STANDARD :: regex where
  "re_ASME_STANDARD =
     seqs [Bol,
           Grp 1 (seqs [Lit ''ASME B'', Plus Digit, Opt (Chr (CHR ''.'')), PlusLazy Digit]),
           Eol]"

text \<open>\<^verbatim>\<open>/^(?:FCS )?(S?A\d\d\dN?)$/\<close>\<close>

definition re_STEEL_TYPE :: regex where
  "re_STEEL_TYPE =
     seqs [Bol,
           Opt (NGrp (Lit ''FCS '')),
           Grp 1 (seqs [Opt (Chr (CHR ''S'')), Chr (CHR ''A''), Digit, Digit, Digit,
                        Opt (Chr (CHR ''N''))]),
           Eol]"

text \<open>\<^verbatim>\<open>/^((CS)|(CARBON( STEEL)?))$/\<close>\<close>

definition re_CARBON_STEEL :: regex where
  "re_CARBON_STEEL =
     seqs [Bol,
           Grp 1 (Alt (Grp 2 (Lit ''CS''))
                      (Grp 3 (seqs [Lit ''CARBON'', Opt (Grp 4 (Lit '' STEEL''))]))),
           Eol]"

subsection \<open>The match functions\<close>

text \<open>\<open>if (s.match(re)) return v; else return null\<close> and \<open>return m ? v : null\<close>.\<close>

definition constant_on_match :: "regex \<Rightarrow> string \<Rightarrow> string \<Rightarrow> jsval" where
  "constant_on_match r v s = (case js_match s r of Some m \<Rightarrow> Str v | None \<Rightarrow> Null)"

text \<open>\<open>return m ? m[k] : null\<close>.\<close>

definition group_on_match :: "regex \<Rightarrow> nat \<Rightarrow> string \<Rightarrow> jsval" where
  "group_on_match r k s = (case js_match s r of Some m \<Rightarrow> grp m k | None \<Rightarrow> Null)"

definition match_FLANGE :: "string \<Rightarrow> jsval" where
  "match_FLANGE s = constant_on_match re_FLANGE ''FLANGE'' s"

definition match_PIPE :: "string \<Rightarrow> jsval" where
  "match_PIPE s = constant_on_match re_PIPE ''PIPE'' s"

definition match_INCHES :: "string \<Rightarrow> jsval" where
  "match_INCHES s = group_on_match re_INCHES 1 s"

definition match_WELD_NECK :: "string \<Rightarrow> jsval" where
  "match_WELD_NECK s = constant_on_match re_WELD_NECK ''WELD NECK'' s"

text \<open>
  \<open>return m ? (s.match(/\d+/) || [])[0] : null\<close>: element 0 of the second match, and
  \<open>undefined\<close> (element 0 of the empty array) when the token has no digit.
\<close>

definition match_POUNDS :: "string \<Rightarrow> jsval" where
  "match_POUNDS s =
     (case js_match s re_POUNDS of
        Some m \<Rightarrow> (case js_match s re_DIGITS of Some m' \<Rightarrow> grp m' 0 | None \<Rightarrow> Undefined)
      | None \<Rightarrow> Null)"

definition match_SCHEDULE_INCHES :: "string \<Rightarrow> jsval" where
  "match_SCHEDULE_INCHES s = group_on_match re_SCHEDULE_INCHES 1 s"

definition match_SCHEDULE_STANDARD :: "string \<Rightarrow> jsval" where
  "match_SCHEDULE_STANDARD s = constant_on_match re_SCHEDULE_STANDARD ''STANDARD'' s"

definition match_SCHEDULE_EXTRA_HEAVY :: "string \<Rightarrow> jsval" where
  "match_SCHEDULE_EXTRA_HEAVY s = constant_on_match re_SCHEDULE_EXTRA_HEAVY ''EXTRA HEAVY'' s"

definition match_ASME_STANDARD :: "string \<Rightarrow> jsval" where
  "match_ASME_STANDARD s = group_on_match re_ASME_STANDARD 0 s"

definition match_STEEL_TYPE :: "string \<Rightarrow> jsval" where
  "match_STEEL_TYPE s = group_on_match re_STEEL_TYPE 1 s"

definition match_CARBON_STEEL :: "string \<Rightarrow> jsval" where
  "match_CARBON_STEEL s = constant_on_match re_CARBON_STEEL ''CARBON STEEL'' s"

subsection \<open>The catalog\<close>

definition SPECIFICATION :: "spec_field list" where
  "SPECIFICATION =
     [\<lparr>sf_kind = ''PRODUCT TYPE'',
       matchers = [\<lparr>fm_kind = ''FLANGE'', fm_match = match_FLANGE\<rparr>,
                   \<lparr>fm_kind = ''PIPE'', fm_match = match_PIPE\<rparr>]\<rparr>,
      \<lparr>sf_kind = ''SIZE'',
       matchers = [\<lparr>fm_kind = ''INCHES'', fm_match = match_INCHES\<rparr>]\<rparr>,
      \<lparr>sf_kind = ''FLANGE TYPE'',
       matchers = [\<lparr>fm_kind = ''WELD NECK'', fm_match = match_WELD_NECK\<rparr>]\<rparr>,
      \<lparr>sf_kind = ''PRESSURE RATING'',
       matchers = [\<lparr>fm_kind = ''POUNDS'', fm_match = match_POUNDS\<rparr>]\<rparr>,
      \<lparr>sf_kind = ''BORE SCHEDULE SIZE'',
       matchers = [\<lparr>fm_kind = ''SCHEDULE INCHES'', fm_match = match_SCHEDULE_INCHES\<rparr>,
                   \<lparr>fm_kind = ''SCHEDULE STANDARD'', fm_match = match_SCHEDULE_STANDARD\<rparr>,
                   \<lparr>fm_kind = ''SCHEDULE EXTRA HEAVY'', fm_match = match_SCHEDULE_EXTRA_HEAVY\<rparr>]\<rparr>,
      \<lparr>sf_kind = ''MATERIAL'',
       matchers = [\<lparr>fm_kind = ''ASME STANDARD'', fm_match = match_ASME_STANDARD\<rparr>,
                   \<lparr>fm_kind = ''STEEL TYPE'', fm_match = match_STEEL_TYPE\<rparr>,
                   \<lparr>fm_kind = ''CARBON STEEL'', fm_match = match_CARBON_STEEL\<rparr>]\<rparr>]"

text \<open>
  The pattern each rule of the catalog tests its token with, in catalog order (the
  match functions above are closures, so the pairing is stated here).
\<close>

definition rule_patterns :: "(field_matcher \<times> regex) list" where
  "rule_patterns =
     zip (concat (map matchers SPECIFICATION))
         [re_FLANGE, re_PIPE, re_INCHES, re_WELD_NECK, re_POUNDS, re_SCHEDULE_INCHES,
          re_SCHEDULE_STANDARD, re_SCHEDULE_EXTRA_HEAVY, re_ASME_STANDARD, re_STEEL_TYPE,
          re_CARBON_STEEL]"

section \<open>The token matching engine\<close>

record token_match =
  spec_field_kind :: string
  field_match_kind :: string
  standardized_value :: string

record token_match_result =
  token :: string
  matches :: "token_match list"

text \<open>
  The body of the inner loop of \<open>parseToken\<close>: the matches one rule pushes for a token
  (one when the returned value is truthy, none otherwise).
\<close>

definition rule_matches :: "spec_field \<Rightarrow> field_matcher \<Rightarrow> string \<Rightarrow> token_match list" where
  "rule_matches spec_fld field_matcher tok =
     (let v = fm_match field_matcher tok
      in if truthy v
         then (case v of
                 Str s \<Rightarrow> [\<lparr>spec_field_kind = sf_kind spec_fld,
                            field_match_kind = fm_kind field_matcher,
                            standardized_value = s\<rparr>]
               | Null \<Rightarrow> [] | Undefined \<Rightarrow> [])
         else [])"

text \<open>The two nested loops of \<open>parseToken\<close> over a catalog, pushing in traversal order.\<close>

definition parseToken_in :: "spec_field list \<Rightarrow> string \<Rightarrow> token_match_result" where
  "parseToken_in catalog tok =
     \<lparr>token = tok,
      matches = concat (map (\<lambda>spec_fld.
                   concat (map (\<lambda>field_matcher. rule_matches spec_fld field_matcher tok)
                               (matchers spec_fld)))
                 catalog)\<rparr>"

definition parseToken :: "string \<Rightarrow> token_match_result" where
  "parseToken tok = parseToken_in SPECIFICATION tok"

section \<open>The line tokenizer\<close>

text \<open>
  \<open>line.split(/, ?/)\<close>: every comma, together with one space directly after it if there
  is one, is a separator; the pieces between separators are the candidates, the empty
  ones included (the empty line gives one empty candidate).
\<close>

fun split_comma :: "string \<Rightarrow> string list" where
  "split_comma [] = [[]]"
| "split_comma (x # xs) =
     (if x = CHR '',''
      then (case xs of
              [] \<Rightarrow> [] # split_comma []
            | y # ys \<Rightarrow> if y = CHR '' '' then [] # split_comma ys else [] # split_comma (y # ys))
      else (case split_comma xs of
              [] \<Rightarrow> [[x]]
            | piece # pieces \<Rightarrow> (x # piece) # pieces))"

text \<open>
  The two window tests of the loop body. Each gives \<open>None\<close> for a thrown TypeError,
  \<open>Some None\<close> when its branch is not taken, and \<open>Some (Some s)\<close> when the merged string
  \<open>s\<close> has a match and is to be pushed. The two-candidate window is built by the template
  \<^verbatim>\<open>`${candidates[i].token} ${candidates[i + 1].token}}`\<close>, whose last character is a
  closing brace.
\<close>

definition window3 :: "token_match_result list \<Rightarrow> nat \<Rightarrow> string option option" where
  "window3 candidates i =
     (if length candidates - i \<ge> 3
      then (case (at candidates i, at candidates (i + 1), at candidates (i + 2)) of
              (Some c0, Some c1, Some c2) \<Rightarrow>
                (let s = token c0 @ '' '' @ token c1 @ '' '' @ token c2
                 in if length (matches (parseToken s)) > 0 then Some (Some s) else Some None)
            | _ \<Rightarrow> None)
      else Some None)"

definition window2 :: "token_match_result list \<Rightarrow> nat \<Rightarrow> string option option" where
  "window2 candidates i =
     (if length candidates - i \<ge> 2
      then (case (at candidates i, at candidates (i + 1)) of
              (Some c0, Some c1) \<Rightarrow>
                (let s = token c0 @ '' '' @ token c1 @ ''}''
                 in if length (matches (parseToken s)) > 0 then Some (Some s) else Some None)
            | _ \<Rightarrow> None)
      else Some None)"

text \<open>
  The \<open>for\<close> loop of \<open>tokenizeLine\<close>, from cursor \<open>i\<close> with \<open>result\<close> pushed so far:
  \<open>i += 2; continue\<close> and \<open>i += 1; continue\<close> are followed by the loop's own \<open>i++\<close>.
\<close>

function tokenizeLoop :: "token_match_result list \<Rightarrow> nat \<Rightarrow> string list \<Rightarrow> string list option" where
  "tokenizeLoop candidates i result =
     (if i < length candidates
      then (case window3 candidates i of
              None \<Rightarrow> None
            | Some (Some s) \<Rightarrow> tokenizeLoop candidates (i + 2 + 1) (result @ [s])
            | Some None \<Rightarrow>
                (case window2 candidates i of
                   None \<Rightarrow> None
                 | Some (Some s) \<Rightarrow> tokenizeLoop candidates (i + 1 + 1) (result @ [s])
                 | Some None \<Rightarrow>
                     (case at candidates i of
                        None \<Rightarrow> None
                      | Some c \<Rightarrow> tokenizeLoop candidates (i + 1) (result @ [token c]))))
      else Some result)"
  by pat_completeness auto
termination
  by (relation "measure (\<lambda>(candidates, i, result). length candidates - i)") auto

text \<open>The loop equation is unfolded by hand where it is needed.\<close>

declare tokenizeLoop.simps [simp del]

definition tokenizeLine :: "string \<Rightarrow> string list option" where
  "tokenizeLine line = tokenizeLoop (map parseToken (split_comma line)) 0 []"

definition parseLine :: "string \<Rightarrow> token_match_result list option" where
  "parseLine line = map_option (map parseToken) (tokenizeLine line)"

section \<open>The field aggregator\<close>

record populated_match =
  pm_kind :: string
  pm_token :: string
  pm_value :: string

record populated_spec_field =
  psf_kind :: string
  psf_matches :: "populated_match list"

text \<open>The entries one catalog field collects: the two inner loops of \<open>populateSpecFields\<close>.\<close>

definition field_entries :: "string \<Rightarrow> token_match_result list \<Rightarrow> populated_match list" where
  "field_entries k match_results =
     concat (map (\<lambda>mr.
        concat (map (\<lambda>m. if spec_field_kind m = k
                          then [\<lparr>pm_kind = field_match_kind m, pm_token = token mr,
                                 pm_value = standardized_value m\<rparr>]
                          else [])
                    (matches mr)))
        match_results)"

definition unrecognized_entries :: "token_match_result list \<Rightarrow> populated_match list" where
  "unrecognized_entries match_results =
     map (\<lambda>mr. \<lparr>pm_kind = ''UNRECOGNIZED'', pm_token = token mr, pm_value = token mr\<rparr>)
         (filter (\<lambda>mr. length (matches mr) = 0) match_results)"

definition populateSpecFields :: "token_match_result list \<Rightarrow> populated_spec_field list" where
  "populateSpecFields match_results =
     map (\<lambda>spec_fld. \<lparr>psf_kind = sf_kind spec_fld,
                      psf_matches = field_entries (sf_kind spec_fld) match_results\<rparr>)
         SPECIFICATION
     @ [\<lparr>psf_kind = ''UNRECOGNIZED'', psf_matches = unrecognized_entries match_results\<rparr>]"

section \<open>The per-line pipeline and notions to state its properties\<close>

text \<open>
  \<open>App\<close> maps \<open>parseLine\<close> and then \<open>populateSpecFields\<close> over the lines;
  \<open>populated_fields\<close> is that pipeline for one line.
\<close>

definition populated_fields :: "string \<Rightarrow> populated_spec_field list option" where
  "populated_fields line = map_option populateSpecFields (parseLine line)"

text \<open>The first three lines of \<open>getTestLines\<close>.\<close>

definition test_line_1 :: string where
  "test_line_1 =
     ''PIPE, SCH STD, CS A-106B/A-53B/API 5L-B SMLS, P/D CODE PSA01 BBE, 3'' @ [CHR 0x22]"

definition test_line_2 :: string where
  "test_line_2 =
     ''FLG, RFSO, CL 150, SCH STD, FCS A105, ASME B16.5, P/D CODE FSA01, 20'' @ [CHR 0x22]"

definition test_line_3 :: string where
  "test_line_3 = ''FLG BLIND, RF,CL 150, FCS A105 ASME B16.5, 20'' @ [CHR 0x22]"

text \<open>The standardized values listed under the field of a given kind.\<close>

definition values_of :: "string \<Rightarrow> populated_spec_field list \<Rightarrow> string list" where
  "values_of k populated =
     concat (map (\<lambda>f. map pm_value (psf_matches f)) (filter (\<lambda>f. psf_kind f = k) populated))"

text \<open>
  The entry a match of a token contributes, tagged with the kind of the field the match
  names.
\<close>

definition tagged_entry :: "token_match_result \<Rightarrow> token_match \<Rightarrow> string \<times> populated_match" where
  "tagged_entry mr m =
     (spec_field_kind m,
      \<lparr>pm_kind = field_match_kind m, pm_token = token mr, pm_value = standardized_value m\<rparr>)"

text \<open>
  The three-candidate window at cursor \<open>i\<close>: the template
  \<^verbatim>\<open>`${candidates[i].token} ${candidates[i + 1].token} ${candidates[i + 2].token}`\<close>.
\<close>

definition merge3 :: "token_match_result list \<Rightarrow> nat \<Rightarrow> string" where
  "merge3 candidates i =
     token (candidates ! i) @ '' '' @ token (candidates ! (i + 1)) @ '' ''
       @ token (candidates ! (i + 2))"

text \<open>A string of exactly three digits.\<close>

definition digits3 :: "string \<Rightarrow> bool" where
  "digits3 d = (length d = 3 \<and> list_all is_digit d)"

section \<open>The matcher: spans, anchors, last characters\<close>

lemma lit_rest_Some: "lit_rest l rest = Some rest' \<longleftrightarrow> rest = l @ rest'"
  by (induction l rest rule: lit_rest.induct) auto

lemma lit_rest_Some2: "Some rest' = lit_rest l rest \<longleftrightarrow> rest = l @ rest'"
  using lit_rest_Some [of l rest rest'] by auto

lemma spansD:
  "spans f \<Longrightarrow> (p', rest', c') \<in> set (f p rest c) \<Longrightarrow> \<exists>w. rest = w @ rest' \<and> p' = p + length w"
  unfolding spans_def by blast

lemma iterations_spans:
  assumes f: "spans f"
  shows "(p', rest', c') \<in> set (iterations n f g p rest c) \<Longrightarrow> \<exists>w. rest = w @ rest' \<and> p' = p + length w"
proof (induction n arbitrary: p rest c)
  case 0
  then show ?case by simp
next
  case (Suc n)
  from Suc.prems consider "(p', rest', c') = (p, rest, c)"
    | q s d where "(q, s, d) \<in> set (f p rest c)" "(p', rest', c') \<in> set (iterations n f g q s d)"
    by (auto simp: Let_def split: if_splits)
  then show ?case
  proof cases
    case 1
    then show ?thesis by simp
  next
    case 2
    from spansD [OF f 2(1)] obtain w1 where w1: "rest = w1 @ s" "q = p + length w1" by blast
    from Suc.IH [OF 2(2)] obtain w2 where w2: "s = w2 @ rest'" "p' = q + length w2" by blast
    from w1 w2 have "rest = (w1 @ w2) @ rest' \<and> p' = p + length (w1 @ w2)" by simp
    then show ?thesis by blast
  qed
qed

lemma ms_spans: "spans (ms r)"
proof (induction r)
  case (Seq r1 r2)
  show ?case unfolding spans_def
  proof (intro allI impI)
    fix p rest c p' rest' c'
    assume "(p', rest', c') \<in> set (ms (Seq r1 r2) p rest c)"
    then obtain q s d where a: "(q, s, d) \<in> set (ms r1 p rest c)" and b: "(p', rest', c') \<in> set (ms r2 q s d)"
      by auto
    from spansD [OF Seq(1) a] obtain w1 where w1: "rest = w1 @ s" "q = p + length w1" by blast
    from spansD [OF Seq(2) b] obtain w2 where w2: "s = w2 @ rest'" "p' = q + length w2" by blast
    from w1 w2 have "rest = (w1 @ w2) @ rest' \<and> p' = p + length (w1 @ w2)" by simp
    then show "\<exists>w. rest = w @ rest' \<and> p' = p + length w" by blast
  qed
next
  case (Plus r)
  have cl: "spans (\<lambda>q s d. ms r q s (clear r d))"
    using Plus unfolding spans_def by blast
  show ?case unfolding spans_def
  proof (intro allI impI)
    fix p rest c p' rest' c'
    assume "(p', rest', c') \<in> set (ms (Plus r) p rest c)"
    then obtain q s d where a: "(q, s, d) \<in> set (ms r p rest (clear r c))"
      and b: "(p', rest', c') \<in> set (iterations (length s) (\<lambda>q s d. ms r q s (clear r d)) True q s d)"
      by auto
    from spansD [OF Plus a] obtain w1 where w1: "rest = w1 @ s" "q = p + length w1" by blast
    from iterations_spans [OF cl b] obtain w2 where w2: "s = w2 @ rest'" "p' = q + length w2" by blast
    from w1 w2 have "rest = (w1 @ w2) @ rest' \<and> p' = p + length (w1 @ w2)" by simp
    then show "\<exists>w. rest = w @ rest' \<and> p' = p + length w" by blast
  qed
next
  case (PlusLazy r)
  have cl: "spans (\<lambda>q s d. ms r q s (clear r d))"
    using PlusLazy unfolding spans_def by blast
  show ?case unfolding spans_def
  proof (intro allI impI)
    fix p rest c p' rest' c'
    assume "(p', rest', c') \<in> set (ms (PlusLazy r) p rest c)"
    then obtain q s d where a: "(q, s, d) \<in> set (ms r p rest (clear r c))"
      and b: "(p', rest', c') \<in> set (iterations (length s) (\<lambda>q s d. ms r q s (clear r d)) False q s d)"
      by auto
    from spansD [OF PlusLazy a] obtain w1 where w1: "rest = w1 @ s" "q = p + length w1" by blast
    from iterations_spans [OF cl b] obtain w2 where w2: "s = w2 @ rest'" "p' = q + length w2" by blast
    from w1 w2 have "rest = (w1 @ w2) @ rest' \<and> p' = p + length (w1 @ w2)" by simp
    then show "\<exists>w. rest = w @ rest' \<and> p' = p + length w" by blast
  qed
next
  case (Alt r1 r2)
  then show ?case unfolding spans_def by (auto; blast)
next
  case (Opt r)
  then show ?case unfolding spans_def by (auto; blast)
next
  case (Grp k r)
  then show ?case unfolding spans_def by (auto; blast)
qed (auto simp: spans_def lit_rest_Some lit_rest_Some2 split: list.splits if_splits option.splits)

lemma ms_span:
  "(p', rest', c') \<in> set (ms r p rest c) \<Longrightarrow> \<exists>w. rest = w @ rest' \<and> p' = p + length w"
  using ms_spans spansD by blast

text \<open>
  The bound on the number of iterations is no restriction: with any larger bound the
  quantifiers give the same states.
\<close>

lemma iterations_fuel:
  assumes sp: "spans f"
  shows "length rest \<le> n \<Longrightarrow> iterations n f g p rest c = iterations (length rest) f g p rest c"
proof (induction n arbitrary: p rest c rule: less_induct)
  case (less n)
  have short: "length rest' < length rest"
    if "(p', rest', c') \<in> set (f p rest c)" "p' \<noteq> p" for p' rest' c'
  proof -
    from spansD [OF sp that(1)] obtain w where "rest = w @ rest'" "p' = p + length w" by blast
    with that(2) show ?thesis by auto
  qed
  show ?case
  proof (cases n)
    case 0
    with less.prems show ?thesis by simp
  next
    case (Suc n')
    show ?thesis
    proof (cases rest)
      case Nil
      have "(if p' = p then [] else iterations n' f g p' rest' c') = []"
        if "(p', rest', c') \<in> set (f p [] c)" for p' rest' c'
        using short [of p' rest' c'] that Nil by auto
      then have "concat (map (\<lambda>(p', rest', c'). if p' = p then [] else iterations n' f g p' rest' c')
                      (f p [] c)) = []"
        by auto
      with Nil Suc show ?thesis by (simp add: Let_def)
    next
      case (Cons x xs)
      then obtain k where k: "length rest = Suc k" by simp
      with less.prems Suc have kn: "k \<le> n'" by simp
      have eq: "map (\<lambda>(p', rest', c'). if p' = p then [] else iterations n' f g p' rest' c') (f p rest c)
          = map (\<lambda>(p', rest', c'). if p' = p then [] else iterations k f g p' rest' c') (f p rest c)"
      proof (rule map_cong [OF refl], clarify)
        fix p' rest' c'
        assume mem: "(p', rest', c') \<in> set (f p rest c)"
        show "(if p' = p then [] else iterations n' f g p' rest' c')
            = (if p' = p then [] else iterations k f g p' rest' c')"
        proof (cases "p' = p")
          case False
          from short [OF mem False] k kn have l: "length rest' \<le> k" "length rest' \<le> n'" by simp_all
          have "iterations n' f g p' rest' c' = iterations (length rest') f g p' rest' c'"
            using less.IH [of n' rest' p' c'] l(2) Suc by simp
          moreover have "iterations k f g p' rest' c' = iterations (length rest') f g p' rest' c'"
            using less.IH [of k rest' p' c'] l(1) kn Suc by simp
          ultimately show ?thesis by simp
        qed simp
      qed
      show ?thesis unfolding Suc k iterations.simps Let_def eq ..
    qed
  qed
qed

lemma Plus_fuel:
  "length rest \<le> n \<Longrightarrow>
   ms (Plus r) p rest c =
     concat (map (\<lambda>(p', rest', c'). iterations n (\<lambda>q s d. ms r q s (clear r d)) True p' rest' c')
                 (ms r p rest (clear r c)))"
proof -
  assume n: "length rest \<le> n"
  have sp: "spans (\<lambda>q s d. ms r q s (clear r d))"
    using ms_spans [of r] unfolding spans_def by blast
  have eq: "map (\<lambda>(p', rest', c'). iterations (length rest') (\<lambda>q s d. ms r q s (clear r d)) True p' rest' c')
            (ms r p rest (clear r c))
      = map (\<lambda>(p', rest', c'). iterations n (\<lambda>q s d. ms r q s (clear r d)) True p' rest' c')
            (ms r p rest (clear r c))"
  proof (rule map_cong [OF refl], clarify)
    fix p' rest' c'
    assume "(p', rest', c') \<in> set (ms r p rest (clear r c))"
    from ms_span [OF this] n have "length rest' \<le> n" by auto
    from iterations_fuel [OF sp this]
    show "iterations (length rest') (\<lambda>q s d. ms r q s (clear r d)) True p' rest' c'
        = iterations n (\<lambda>q s d. ms r q s (clear r d)) True p' rest' c'"
      by simp
  qed
  show ?thesis by (simp only: ms.simps eq)
qed

lemma PlusLazy_fuel:
  "length rest \<le> n \<Longrightarrow>
   ms (PlusLazy r) p rest c =
     concat (map (\<lambda>(p', rest', c'). iterations n (\<lambda>q s d. ms r q s (clear r d)) False p' rest' c')
                 (ms r p rest (clear r c)))"
proof -
  assume n: "length rest \<le> n"
  have sp: "spans (\<lambda>q s d. ms r q s (clear r d))"
    using ms_spans [of r] unfolding spans_def by blast
  have eq: "map (\<lambda>(p', rest', c'). iterations (length rest') (\<lambda>q s d. ms r q s (clear r d)) False p' rest' c')
            (ms r p rest (clear r c))
      = map (\<lambda>(p', rest', c'). iterations n (\<lambda>q s d. ms r q s (clear r d)) False p' rest' c')
            (ms r p rest (clear r c))"
  proof (rule map_cong [OF refl], clarify)
    fix p' rest' c'
    assume "(p', rest', c') \<in> set (ms r p rest (clear r c))"
    from ms_span [OF this] n have "length rest' \<le> n" by auto
    from iterations_fuel [OF sp this]
    show "iterations (length rest') (\<lambda>q s d. ms r q s (clear r d)) False p' rest' c'
        = iterations n (\<lambda>q s d. ms r q s (clear r d)) False p' rest' c'"
      by simp
  qed
  show ?thesis by (simp only: ms.simps eq)
qed

lemma ms_starts_at_bol:
  "starts_at_bol r \<Longrightarrow> st \<in> set (ms r p rest c) \<Longrightarrow> p = 0"
  by (induction r arbitrary: p rest c st) (auto split: if_splits)

lemma ms_ends_at_eol:
  "ends_at_eol r \<Longrightarrow> (p', rest', c') \<in> set (ms r p rest c) \<Longrightarrow> rest' = []"
  by (induction r arbitrary: p rest c p' rest' c') (auto split: if_splits)

lemma search_later_None:
  "starts_at_bol r \<Longrightarrow> 0 < k \<Longrightarrow> search r k rest = None"
proof (induction rest arbitrary: k)
  case Nil
  have "ms r k [] [] = []"
  proof (cases "ms r k [] []")
    case (Cons st sts)
    then have "st \<in> set (ms r k [] [])" by simp
    with Nil ms_starts_at_bol show ?thesis by blast
  qed simp
  then show ?case by simp
next
  case (Cons x rest)
  have "ms r k (x # rest) [] = []"
  proof (cases "ms r k (x # rest) []")
    case (Cons st sts)
    then have "st \<in> set (ms r k (x # rest) [])" by simp
    with Cons.prems ms_starts_at_bol show ?thesis by blast
  qed simp
  with Cons show ?case by simp
qed

lemma js_match_at_bol:
  assumes "starts_at_bol r"
  shows "js_match s r =
     (case ms r 0 s [] of
        (p', rest', c') # others \<Rightarrow> Some \<lparr>index = 0, whole = take p' s, groups = c'\<rparr>
      | [] \<Rightarrow> None)"
  using search_later_None [OF assms, of "Suc 0"]
  by (cases s) (auto simp: js_match_def split: list.splits)

lemma js_match_anchored:
  assumes b: "starts_at_bol r" and e: "ends_at_eol r" and m: "js_match s r = Some m"
  shows "index m = 0 \<and> whole m = s"
proof -
  from m obtain p' rest' c' others where h: "ms r 0 s [] = (p', rest', c') # others"
    and mm: "m = \<lparr>index = 0, whole = take p' s, groups = c'\<rparr>"
    unfolding js_match_at_bol [OF b] by (auto split: list.splits)
  from h have mem: "(p', rest', c') \<in> set (ms r 0 s [])" by simp
  from ms_ends_at_eol [OF e mem] have "rest' = []" .
  with ms_span [OF mem] have "p' = length s" by auto
  with mm show ?thesis by simp
qed

lemma iterations_last:
  assumes f: "\<And>p rest c p' w rest' c'. (p', rest', c') \<in> set (f p (w @ rest') c)
      \<Longrightarrow> w \<noteq> [] \<Longrightarrow> last w \<in> L"
    and sp: "spans f"
  shows "(p', rest', c') \<in> set (iterations n f g p (w @ rest') c)
      \<Longrightarrow> w \<noteq> [] \<Longrightarrow> last w \<in> L"
proof (induction n arbitrary: p w c)
  case 0
  then show ?case by simp
next
  case (Suc n)
  from Suc.prems consider "(p', rest', c') = (p, w @ rest', c)"
    | q s d where "(q, s, d) \<in> set (f p (w @ rest') c)" "q \<noteq> p"
        "(p', rest', c') \<in> set (iterations n f g q s d)"
    by (auto simp: Let_def split: if_splits)
  then show ?case
  proof cases
    case 1
    with Suc.prems show ?thesis by simp
  next
    case 2
    from spansD [OF sp 2(1)] obtain w1 where w1: "w @ rest' = w1 @ s" "q = p + length w1" by blast
    from iterations_spans [OF sp 2(3)] obtain w2 where w2: "s = w2 @ rest'" "p' = q + length w2" by blast
    from w1 w2 have w: "w = w1 @ w2" by simp
    show ?thesis
    proof (cases "w2 = []")
      case True
      with w have ww: "w = w1" by simp
      from 2(1) w1 ww have "(q, s, d) \<in> set (f p (w @ s) c)" by simp
      from f [OF this] Suc.prems show ?thesis by simp
    next
      case False
      from 2(3) w2 have "(p', rest', c') \<in> set (iterations n f g q (w2 @ rest') d)" by simp
      from Suc.IH [OF this False] have "last w2 \<in> L" .
      with w False show ?thesis by simp
    qed
  qed
qed

lemma ms_last:
  "(p', rest', c') \<in> set (ms r p (w @ rest') c) \<Longrightarrow>
     (w = [] \<longrightarrow> nullable r) \<and> (w \<noteq> [] \<longrightarrow> last w \<in> set (last_chars r))"
proof (induction r arbitrary: p w c p' rest' c')
  case (Lit l)
  from Lit.prems(1) have "w @ rest' = l @ rest'"
    by (auto simp: lit_rest_Some lit_rest_Some2 split: option.splits)
  then have "w = l" by simp
  then show ?case by simp
next
  case (Seq r1 r2)
  from Seq.prems(1) obtain q s d where a: "(q, s, d) \<in> set (ms r1 p (w @ rest') c)"
    and b: "(p', rest', c') \<in> set (ms r2 q s d)" by auto
  from ms_span [OF a] obtain w1 where w1: "w @ rest' = w1 @ s" "q = p + length w1" by blast
  from ms_span [OF b] obtain w2 where w2: "s = w2 @ rest'" "p' = q + length w2" by blast
  from w1 w2 have w: "w = w1 @ w2" by simp
  from a w1 have "(q, s, d) \<in> set (ms r1 p (w1 @ s) c)" by simp
  from Seq.IH(1) [OF this]
  have 1: "(w1 = [] \<longrightarrow> nullable r1) \<and> (w1 \<noteq> [] \<longrightarrow> last w1 \<in> set (last_chars r1))" .
  from b w2 have "(p', rest', c') \<in> set (ms r2 q (w2 @ rest') d)" by simp
  from Seq.IH(2) [OF this]
  have 2: "(w2 = [] \<longrightarrow> nullable r2) \<and> (w2 \<noteq> [] \<longrightarrow> last w2 \<in> set (last_chars r2))" .
  from 1 2 w show ?case by (cases "w2 = []") auto
next
  case (Plus r)
  let ?f = "\<lambda>q s d. ms r q s (clear r d)"
  have sp: "spans ?f" using ms_spans [of r] unfolding spans_def by blast
  from Plus.prems(1) obtain q s d where a: "(q, s, d) \<in> set (ms r p (w @ rest') (clear r c))"
    and b: "(p', rest', c') \<in> set (iterations (length s) ?f True q s d)" by auto
  from ms_span [OF a] obtain w1 where w1: "w @ rest' = w1 @ s" "q = p + length w1" by blast
  from iterations_spans [OF sp b] obtain w2 where w2: "s = w2 @ rest'" "p' = q + length w2" by blast
  from w1 w2 have w: "w = w1 @ w2" by simp
  from a w1 have "(q, s, d) \<in> set (ms r p (w1 @ s) (clear r c))" by simp
  from Plus.IH [OF this]
  have 1: "(w1 = [] \<longrightarrow> nullable r) \<and> (w1 \<noteq> [] \<longrightarrow> last w1 \<in> set (last_chars r))" .
  from b w2 have b': "(p', rest', c') \<in> set (iterations (length s) ?f True q (w2 @ rest') d)" by simp
  have 2: "w2 \<noteq> [] \<Longrightarrow> last w2 \<in> set (last_chars r)"
    by (rule iterations_last [where f = ?f, OF _ sp b']) (use Plus.IH in blast)
  from 1 2 w show ?case by (cases "w2 = []") auto
next
  case (PlusLazy r)
  let ?f = "\<lambda>q s d. ms r q s (clear r d)"
  have sp: "spans ?f" using ms_spans [of r] unfolding spans_def by blast
  from PlusLazy.prems(1) obtain q s d where a: "(q, s, d) \<in> set (ms r p (w @ rest') (clear r c))"
    and b: "(p', rest', c') \<in> set (iterations (length s) ?f False q s d)" by auto
  from ms_span [OF a] obtain w1 where w1: "w @ rest' = w1 @ s" "q = p + length w1" by blast
  from iterations_spans [OF sp b] obtain w2 where w2: "s = w2 @ rest'" "p' = q + length w2" by blast
  from w1 w2 have w: "w = w1 @ w2" by simp
  from a w1 have "(q, s, d) \<in> set (ms r p (w1 @ s) (clear r c))" by simp
  from PlusLazy.IH [OF this]
  have 1: "(w1 = [] \<longrightarrow> nullable r) \<and> (w1 \<noteq> [] \<longrightarrow> last w1 \<in> set (last_chars r))" .
  from b w2 have b': "(p', rest', c') \<in> set (iterations (length s) ?f False q (w2 @ rest') d)" by simp
  have 2: "w2 \<noteq> [] \<Longrightarrow> last w2 \<in> set (last_chars r)"
    by (rule iterations_last [where f = ?f, OF _ sp b']) (use PlusLazy.IH in blast)
  from 1 2 w show ?case by (cases "w2 = []") auto
next
  case (Opt r)
  from Opt.prems consider "w = []"
    | "(p', rest', c') \<in> set (ms r p (w @ rest') (clear r c))" by auto
  then show ?case
  proof cases
    case 1
    then show ?thesis by simp
  next
    case 2
    from Opt.IH [OF this] show ?thesis by simp
  qed
next
  case (Alt r1 r2)
  from Alt.prems consider "(p', rest', c') \<in> set (ms r1 p (w @ rest') c)"
    | "(p', rest', c') \<in> set (ms r2 p (w @ rest') c)" by auto
  then show ?case
  proof cases
    case 1
    from Alt.IH(1) [OF this] show ?thesis by simp
  next
    case 2
    from Alt.IH(2) [OF this] show ?thesis by simp
  qed
next
  case (Grp k r)
  from Grp.prems obtain d where "(p', rest', d) \<in> set (ms r p (w @ rest') c)" by auto
  from Grp.IH [OF this] show ?case by simp
next
  case (Chr a)
  then show ?case by (cases w) (auto split: list.splits if_splits)
next
  case Digit
  then show ?case by (cases w) (auto simp: is_digit_def split: list.splits if_splits)
next
  case (OneOf cs)
  then show ?case by (cases w) (auto split: list.splits if_splits)
qed (auto split: if_splits)

section \<open>Membership in the matcher's result, constructor by constructor\<close>

lemma mem_Eps: "st \<in> set (ms Eps p rest c) \<longleftrightarrow> st = (p, rest, c)"
  by simp

lemma mem_Lit:
  "st \<in> set (ms (Lit l) p rest c) \<longleftrightarrow>
     (\<exists>rest'. rest = l @ rest' \<and> st = (p + length l, rest', c))"
  by (auto simp: lit_rest_Some lit_rest_Some2 split: option.splits)

lemma mem_Chr:
  "st \<in> set (ms (Chr a) p rest c) \<longleftrightarrow> (\<exists>rest'. rest = a # rest' \<and> st = (Suc p, rest', c))"
  by (auto split: list.splits)

lemma mem_Digit:
  "st \<in> set (ms Digit p rest c) \<longleftrightarrow>
     (\<exists>x rest'. rest = x # rest' \<and> is_digit x \<and> st = (Suc p, rest', c))"
  by (auto split: list.splits)

lemma mem_OneOf:
  "st \<in> set (ms (OneOf cs) p rest c) \<longleftrightarrow>
     (\<exists>x rest'. rest = x # rest' \<and> x \<in> set cs \<and> st = (Suc p, rest', c))"
  by (auto split: list.splits)

lemma mem_Bol: "st \<in> set (ms Bol p rest c) \<longleftrightarrow> p = 0 \<and> st = (p, rest, c)"
  by auto

lemma mem_Eol: "st \<in> set (ms Eol p rest c) \<longleftrightarrow> rest = [] \<and> st = (p, rest, c)"
  by auto

lemma mem_Seq:
  "st \<in> set (ms (Seq r1 r2) p rest c) \<longleftrightarrow>
     (\<exists>q s d. (q, s, d) \<in> set (ms r1 p rest c) \<and> st \<in> set (ms r2 q s d))"
  by auto

lemma mem_Alt:
  "st \<in> set (ms (Alt r1 r2) p rest c) \<longleftrightarrow>
     st \<in> set (ms r1 p rest c) \<or> st \<in> set (ms r2 p rest c)"
  by auto

lemma mem_Opt:
  "st \<in> set (ms (Opt r) p rest c) \<longleftrightarrow>
     st = (p, rest, c) \<or> (st \<in> set (ms r p rest (clear r c)) \<and> fst st \<noteq> p)"
  by auto

lemma mem_Grp:
  "st \<in> set (ms (Grp k r) p rest c) \<longleftrightarrow>
     (\<exists>p' rest' c'. (p', rest', c') \<in> set (ms r p rest c) \<and>
        st = (p', rest', (k, take (p' - p) rest) # c'))"
  by (auto simp: image_iff) force

lemma mem_NGrp: "st \<in> set (ms (NGrp r) p rest c) \<longleftrightarrow> st \<in> set (ms r p rest c)"
  by simp

lemmas mem_ms =
  mem_Eps mem_Lit mem_Chr mem_Digit mem_OneOf mem_Bol mem_Eol mem_Seq mem_Alt mem_Opt mem_Grp
  mem_NGrp

lemma js_match_Some_iff:
  assumes "starts_at_bol r"
  shows "(\<exists>m. js_match s r = Some m) \<longleftrightarrow> (\<exists>st. st \<in> set (ms r 0 s []))"
  unfolding js_match_at_bol [OF assms]
  by (cases "ms r 0 s []") auto

lemma POUNDS_bol: "starts_at_bol re_POUNDS"
  by (simp add: re_POUNDS_def)

lemma digits3_iff:
  "digits3 d \<longleftrightarrow> (\<exists>a b c. d = [a, b, c] \<and> is_digit a \<and> is_digit b \<and> is_digit c)"
  by (auto simp: digits3_def numeral_3_eq_3 length_Suc_conv)

lemma non_digits:
  "\<not> is_digit CHR ''#''" "\<not> is_digit CHR '' ''" "\<not> is_digit CHR ''C''" "\<not> is_digit CHR ''L''"
  "\<not> is_digit CHR ''B''" "\<not> is_digit CHR ''P''" "\<not> is_digit CHR ''S''" "\<not> is_digit CHR ''I''"
  by (simp_all add: is_digit_def)

lemma digit_neq:
  "is_digit a \<Longrightarrow> \<not> is_digit x \<Longrightarrow> (a = x) = False"
  "is_digit a \<Longrightarrow> \<not> is_digit x \<Longrightarrow> (x = a) = False"
  by auto

lemma POUNDS_regex_shape:
  assumes "js_match s re_POUNDS = Some m"
  shows "(\<exists>a b c. is_digit a \<and> is_digit b \<and> is_digit c \<and>
        (s = [a, b, c, CHR ''#''] \<or> s = [a, b, c] @ '' LB'' \<or> s = ''CL '' @ [a, b, c])) \<or> s = ''PSI''"
proof -
  from assms have "\<exists>st. st \<in> set (ms re_POUNDS 0 s [])"
    using js_match_Some_iff [OF POUNDS_bol, of s] by blast
  then show ?thesis
    unfolding re_POUNDS_def seqs.simps mem_ms by auto
qed

lemma POUNDS_regex_only:
  assumes "js_match s re_POUNDS = Some m"
  shows "(\<exists>d. digits3 d \<and> (s = d @ ''#'' \<or> s = d @ '' LB'' \<or> s = ''CL '' @ d)) \<or> s = ''PSI''"
proof -
  from POUNDS_regex_shape [OF assms] consider
    (forms) a b c where "is_digit a" "is_digit b" "is_digit c"
      "s = [a, b, c] @ ''#'' \<or> s = [a, b, c] @ '' LB'' \<or> s = ''CL '' @ [a, b, c]"
    | (psi) "s = ''PSI''"
    by auto
  then show ?thesis
  proof cases
    case forms
    then have "digits3 [a, b, c]" by (simp add: digits3_def)
    with forms(4) show ?thesis by blast
  next
    case psi
    then show ?thesis by simp
  qed
qed

lemma POUNDS_regex_forms:
  assumes "digits3 d"
  shows "js_match (d @ ''#'') re_POUNDS \<noteq> None"
    and "js_match (d @ '' LB'') re_POUNDS \<noteq> None"
    and "js_match (''CL '' @ d) re_POUNDS \<noteq> None"
proof -
  from assms obtain a b c where d: "d = [a, b, c]" and dg: "is_digit a" "is_digit b" "is_digit c"
    unfolding digits3_iff by blast
  show "js_match (d @ ''#'') re_POUNDS \<noteq> None"
    unfolding js_match_at_bol [OF POUNDS_bol] d using dg
    by (simp add: re_POUNDS_def)
  show "js_match (d @ '' LB'') re_POUNDS \<noteq> None"
    unfolding js_match_at_bol [OF POUNDS_bol] d using dg
    by (simp add: re_POUNDS_def)
  show "js_match (''CL '' @ d) re_POUNDS \<noteq> None"
    unfolding js_match_at_bol [OF POUNDS_bol] d using dg
    by (simp add: re_POUNDS_def digit_neq non_digits)
qed

lemma digits_run:
  assumes "is_digit a" "is_digit b" "is_digit c"
  shows "js_match [a, b, c, CHR ''#''] re_DIGITS = Some \<lparr>index = 0, whole = [a, b, c], groups = []\<rparr>"
   and "js_match ([a, b, c] @ '' LB'') re_DIGITS = Some \<lparr>index = 0, whole = [a, b, c], groups = []\<rparr>"
   and "js_match (''CL '' @ [a, b, c]) re_DIGITS = Some \<lparr>index = 3, whole = [a, b, c], groups = []\<rparr>"
  using assms by (simp_all add: js_match_def re_DIGITS_def clear_def non_digits Let_def)

lemma digits3_run:
  assumes "digits3 d"
  shows "js_match (d @ ''#'') re_DIGITS = Some \<lparr>index = 0, whole = d, groups = []\<rparr>"
   and "js_match (d @ '' LB'') re_DIGITS = Some \<lparr>index = 0, whole = d, groups = []\<rparr>"
   and "js_match (''CL '' @ d) re_DIGITS = Some \<lparr>index = 3, whole = d, groups = []\<rparr>"
  using assms digits_run unfolding digits3_iff by auto

section \<open>The PRESSURE RATING / POUNDS rule\<close>

text \<open>
  C3 (counterexample). A token of four digits is not matched by the POUNDS rule: the
  first alternative of the pattern is three digits and the character \<open>#\<close>.
\<close>

theorem C3_counterexample: "match_POUNDS ''1234'' = Null"
  by code_simp

text \<open>
  C3 (amended). For every string \<open>d\<close> of three digits the POUNDS rule returns \<open>d\<close> for
  the whole tokens \<open>d#\<close>, \<open>d LB\<close> and \<open>CL d\<close>, and \<open>null\<close> for \<open>dCL\<close>. Leaving aside
  the tokens \<open>PSI\<close> and \<open>d PSI\<close>, every token that is not of one of these three forms
  gets \<open>null\<close>; in particular every token of four digits does.
\<close>

theorem C3_pounds:
  "(\<forall>d. digits3 d \<longrightarrow>
      match_POUNDS (d @ ''#'') = Str d \<and> match_POUNDS (d @ '' LB'') = Str d \<and>
      match_POUNDS (''CL '' @ d) = Str d \<and> match_POUNDS (d @ ''CL'') = Null)
   \<and> (\<forall>s. s \<noteq> ''PSI'' \<and>
          (\<nexists>d. digits3 d \<and> (s = d @ ''#'' \<or> s = d @ '' LB'' \<or> s = ''CL '' @ d \<or> s = d @ '' PSI''))
        \<longrightarrow> match_POUNDS s = Null)
   \<and> (\<forall>s. length s = 4 \<and> list_all is_digit s \<longrightarrow> match_POUNDS s = Null)"
proof (intro conjI allI impI)
  fix d assume d: "digits3 d"
  from POUNDS_regex_forms(1) [OF d] digits3_run(1) [OF d]
  show "match_POUNDS (d @ ''#'') = Str d" by (auto simp: match_POUNDS_def grp_def)
  from POUNDS_regex_forms(2) [OF d] digits3_run(2) [OF d]
  show "match_POUNDS (d @ '' LB'') = Str d" by (auto simp: match_POUNDS_def grp_def)
  from POUNDS_regex_forms(3) [OF d] digits3_run(3) [OF d]
  show "match_POUNDS (''CL '' @ d) = Str d" by (auto simp: match_POUNDS_def grp_def)
  have "js_match (d @ ''CL'') re_POUNDS = None"
  proof (cases "js_match (d @ ''CL'') re_POUNDS")
    case (Some m)
    from POUNDS_regex_only [OF Some] d show ?thesis
      unfolding digits3_iff by (auto simp: non_digits)
  qed simp
  then show "match_POUNDS (d @ ''CL'') = Null" by (simp add: match_POUNDS_def)
next
  fix s
  assume a: "s \<noteq> ''PSI'' \<and>
          (\<nexists>d. digits3 d \<and> (s = d @ ''#'' \<or> s = d @ '' LB'' \<or> s = ''CL '' @ d \<or> s = d @ '' PSI''))"
  have "js_match s re_POUNDS = None"
  proof (cases "js_match s re_POUNDS")
    case (Some m)
    from POUNDS_regex_only [OF Some] a show ?thesis by blast
  qed simp
  then show "match_POUNDS s = Null" by (simp add: match_POUNDS_def)
next
  fix s :: string
  assume a: "length s = 4 \<and> list_all is_digit s"
  have "js_match s re_POUNDS = None"
  proof (cases "js_match s re_POUNDS")
    case (Some m)
    from a obtain x1 x2 x3 x4 where "s = [x1, x2, x3, x4]" "is_digit x4"
      by (auto simp: numeral_eq_Suc length_Suc_conv)
    with POUNDS_regex_only [OF Some] show ?thesis
      unfolding digits3_iff by (auto simp: non_digits)
  qed simp
  then show "match_POUNDS s = Null" by (simp add: match_POUNDS_def)
qed

text \<open>The amended statement at \<open>d = 150\<close> and at the token \<open>1234\<close>.\<close>

theorem C3_witness:
  "digits3 ''150'' \<and> match_POUNDS ''150#'' = Str ''150'' \<and> match_POUNDS ''150 LB'' = Str ''150''
   \<and> match_POUNDS ''CL 150'' = Str ''150'' \<and> match_POUNDS ''150CL'' = Null
   \<and> match_POUNDS ''1234'' = Null"
proof -
  have d: "digits3 ''150''" by (simp add: digits3_def is_digit_def)
  have f: "length ''1234'' = 4 \<and> list_all is_digit ''1234''" by (simp add: is_digit_def)
  from C3_pounds have a: "\<And>d. digits3 d \<Longrightarrow>
      match_POUNDS (d @ ''#'') = Str d \<and> match_POUNDS (d @ '' LB'') = Str d \<and>
      match_POUNDS (''CL '' @ d) = Str d \<and> match_POUNDS (d @ ''CL'') = Null"
    and b: "\<And>s. length s = 4 \<and> list_all is_digit s \<Longrightarrow> match_POUNDS s = Null"
    by blast+
  from a [OF d] b [OF f] d show ?thesis by simp
qed

section \<open>The BORE SCHEDULE SIZE / SCHEDULE STANDARD rule\<close>

lemma SCHEDULE_STANDARD_bol: "starts_at_bol re_SCHEDULE_STANDARD"
  by (simp add: re_SCHEDULE_STANDARD_def)

lemma SCHEDULE_STANDARD_regex:
  "(\<exists>m. js_match s re_SCHEDULE_STANDARD = Some m) \<longleftrightarrow>
     s = ''S STD'' \<or> s = ''SCH STD'' \<or> s = ''SCHEDULE STD'' \<or> s = ''STANDARD''"
  unfolding js_match_Some_iff [OF SCHEDULE_STANDARD_bol]
  unfolding re_SCHEDULE_STANDARD_def seqs.simps mem_ms
  by auto

text \<open>
  C4. The claim wants \<open>SCH STANDARD\<close> and \<open>SCHEDULE STANDARD\<close> to give \<open>STANDARD\<close>
  and the bare word \<open>STANDARD\<close> to give nothing. The rule does the opposite on these
  three: the alternation in its pattern separates \<open>S(CH(EDULE)?)? (STD)\<close> from
  \<open>(STANDARD)\<close>, so the tokens it accepts are exactly \<open>S STD\<close>, \<open>SCH STD\<close>,
  \<open>SCHEDULE STD\<close> and \<open>STANDARD\<close>.
\<close>

theorem C4_schedule_standard:
  "match_SCHEDULE_STANDARD ''SCH STANDARD'' = Null
   \<and> match_SCHEDULE_STANDARD ''SCHEDULE STANDARD'' = Null
   \<and> match_SCHEDULE_STANDARD ''STANDARD'' = Str ''STANDARD''
   \<and> match_SCHEDULE_STANDARD ''SCH STD'' = Str ''STANDARD''
   \<and> match_SCHEDULE_STANDARD ''S STD'' = Str ''STANDARD''
   \<and> (\<forall>s. match_SCHEDULE_STANDARD s =
          (if s = ''S STD'' \<or> s = ''SCH STD'' \<or> s = ''SCHEDULE STD'' \<or> s = ''STANDARD''
           then Str ''STANDARD'' else Null))"
proof -
  have all: "match_SCHEDULE_STANDARD s =
          (if s = ''S STD'' \<or> s = ''SCH STD'' \<or> s = ''SCHEDULE STD'' \<or> s = ''STANDARD''
           then Str ''STANDARD'' else Null)" for s
    using SCHEDULE_STANDARD_regex [of s]
    by (cases "js_match s re_SCHEDULE_STANDARD")
       (simp_all add: match_SCHEDULE_STANDARD_def constant_on_match_def)
  show ?thesis
    by (simp add: all)
qed

section \<open>Every rule of the catalog is anchored\<close>

lemma constant_on_match_anchored:
  assumes "starts_at_bol r" "ends_at_eol r" "constant_on_match r v s \<noteq> Null"
  shows "\<exists>x. js_match s r = Some x \<and> index x = 0 \<and> whole x = s"
  using assms js_match_anchored [of r s]
  by (cases "js_match s r") (auto simp: constant_on_match_def)

lemma group_on_match_anchored:
  assumes "starts_at_bol r" "ends_at_eol r" "group_on_match r k s \<noteq> Null"
  shows "\<exists>x. js_match s r = Some x \<and> index x = 0 \<and> whole x = s"
  using assms js_match_anchored [of r s]
  by (cases "js_match s r") (auto simp: group_on_match_def)

lemma POUNDS_anchored:
  assumes "match_POUNDS s \<noteq> Null"
  shows "\<exists>x. js_match s re_POUNDS = Some x \<and> index x = 0 \<and> whole x = s"
proof -
  have "starts_at_bol re_POUNDS" "ends_at_eol re_POUNDS" by (simp_all add: re_POUNDS_def)
  with assms js_match_anchored [of re_POUNDS s] show ?thesis
    by (cases "js_match s re_POUNDS") (auto simp: match_POUNDS_def)
qed

lemma catalog_anchors:
  "starts_at_bol re_FLANGE" "ends_at_eol re_FLANGE"
  "starts_at_bol re_PIPE" "ends_at_eol re_PIPE"
  "starts_at_bol re_INCHES" "ends_at_eol re_INCHES"
  "starts_at_bol re_WELD_NECK" "ends_at_eol re_WELD_NECK"
  "starts_at_bol re_POUNDS" "ends_at_eol re_POUNDS"
  "starts_at_bol re_SCHEDULE_INCHES" "ends_at_eol re_SCHEDULE_INCHES"
  "starts_at_bol re_SCHEDULE_STANDARD" "ends_at_eol re_SCHEDULE_STANDARD"
  "starts_at_bol re_SCHEDULE_EXTRA_HEAVY" "ends_at_eol re_SCHEDULE_EXTRA_HEAVY"
  "starts_at_bol re_ASME_STANDARD" "ends_at_eol re_ASME_STANDARD"
  "starts_at_bol re_STEEL_TYPE" "ends_at_eol re_STEEL_TYPE"
  "starts_at_bol re_CARBON_STEEL" "ends_at_eol re_CARBON_STEEL"
  by (simp_all add: re_FLANGE_def re_PIPE_def re_INCHES_def re_WELD_NECK_def re_POUNDS_def
      re_SCHEDULE_INCHES_def re_SCHEDULE_STANDARD_def re_SCHEDULE_EXTRA_HEAVY_def
      re_ASME_STANDARD_def re_STEEL_TYPE_def re_CARBON_STEEL_def)

lemma rule_patterns_eq:
  "rule_patterns =
     [(\<lparr>fm_kind = ''FLANGE'', fm_match = match_FLANGE\<rparr>, re_FLANGE),
      (\<lparr>fm_kind = ''PIPE'', fm_match = match_PIPE\<rparr>, re_PIPE),
      (\<lparr>fm_kind = ''INCHES'', fm_match = match_INCHES\<rparr>, re_INCHES),
      (\<lparr>fm_kind = ''WELD NECK'', fm_match = match_WELD_NECK\<rparr>, re_WELD_NECK),
      (\<lparr>fm_kind = ''POUNDS'', fm_match = match_POUNDS\<rparr>, re_POUNDS),
      (\<lparr>fm_kind = ''SCHEDULE INCHES'', fm_match = match_SCHEDULE_INCHES\<rparr>, re_SCHEDULE_INCHES),
      (\<lparr>fm_kind = ''SCHEDULE STANDARD'', fm_match = match_SCHEDULE_STANDARD\<rparr>, re_SCHEDULE_STANDARD),
      (\<lparr>fm_kind = ''SCHEDULE EXTRA HEAVY'', fm_match = match_SCHEDULE_EXTRA_HEAVY\<rparr>, re_SCHEDULE_EXTRA_HEAVY),
      (\<lparr>fm_kind = ''ASME STANDARD'', fm_match = match_ASME_STANDARD\<rparr>, re_ASME_STANDARD),
      (\<lparr>fm_kind = ''STEEL TYPE'', fm_match = match_STEEL_TYPE\<rparr>, re_STEEL_TYPE),
      (\<lparr>fm_kind = ''CARBON STEEL'', fm_match = match_CARBON_STEEL\<rparr>, re_CARBON_STEEL)]"
  by (simp add: rule_patterns_def SPECIFICATION_def)

lemma rules_anchored:
  "\<forall>(m, r) \<in> set rule_patterns. \<forall>s. fm_match m s \<noteq> Null \<longrightarrow>
       (\<exists>x. js_match s r = Some x \<and> index x = 0 \<and> whole x = s)"
  unfolding rule_patterns_eq
  by (simp add: match_FLANGE_def match_PIPE_def match_INCHES_def match_WELD_NECK_def
        match_SCHEDULE_INCHES_def match_SCHEDULE_STANDARD_def match_SCHEDULE_EXTRA_HEAVY_def
        match_ASME_STANDARD_def match_STEEL_TYPE_def match_CARBON_STEEL_def
        constant_on_match_anchored group_on_match_anchored POUNDS_anchored catalog_anchors)

text \<open>
  C5. Every rule of the catalog is anchored to the whole candidate: whenever a rule
  returns something other than \<open>null\<close> for a token, the match of its pattern starts at
  index 0 and its text is the whole token. The pairing of rules and patterns covers the
  catalog. \<open>XFLANGE\<close> has no match at all, \<open>FLANGE\<close> has the PRODUCT TYPE / FLANGE one.
\<close>

theorem C5_anchored:
  "(\<forall>(m, r) \<in> set rule_patterns. \<forall>s. fm_match m s \<noteq> Null \<longrightarrow>
       (\<exists>x. js_match s r = Some x \<and> index x = 0 \<and> whole x = s))
   \<and> map fst rule_patterns = concat (map matchers SPECIFICATION)
   \<and> matches (parseToken ''XFLANGE'') = []
   \<and> matches (parseToken ''FLANGE'') =
       [\<lparr>spec_field_kind = ''PRODUCT TYPE'', field_match_kind = ''FLANGE'',
         standardized_value = ''FLANGE''\<rparr>]"
proof (intro conjI)
  show "\<forall>(m, r) \<in> set rule_patterns. \<forall>s. fm_match m s \<noteq> Null \<longrightarrow>
       (\<exists>x. js_match s r = Some x \<and> index x = 0 \<and> whole x = s)"
    by (rule rules_anchored)
  show "map fst rule_patterns = concat (map matchers SPECIFICATION)"
    by (simp add: rule_patterns_def SPECIFICATION_def)
  show "matches (parseToken ''XFLANGE'') = []"
    by code_simp
  show "matches (parseToken ''FLANGE'') =
       [\<lparr>spec_field_kind = ''PRODUCT TYPE'', field_match_kind = ''FLANGE'',
         standardized_value = ''FLANGE''\<rparr>]"
    by code_simp
qed

text \<open>The FLANGE rule on the token \<open>FLANGE\<close>.\<close>

theorem C5_witness:
  "(\<lparr>fm_kind = ''FLANGE'', fm_match = match_FLANGE\<rparr>, re_FLANGE) \<in> set rule_patterns
   \<and> match_FLANGE ''FLANGE'' \<noteq> Null
   \<and> (\<exists>x. js_match ''FLANGE'' re_FLANGE = Some x \<and> index x = 0 \<and> whole x = ''FLANGE'')"
proof -
  have a: "(\<lparr>fm_kind = ''FLANGE'', fm_match = match_FLANGE\<rparr>, re_FLANGE) \<in> set rule_patterns"
    by (simp add: rule_patterns_eq)
  have b: "match_FLANGE ''FLANGE'' \<noteq> Null"
    by code_simp
  from C5_anchored a have "\<forall>s. match_FLANGE s \<noteq> Null \<longrightarrow>
       (\<exists>x. js_match s re_FLANGE = Some x \<and> index x = 0 \<and> whole x = s)"
    by fastforce
  with a b show ?thesis by blast
qed

section \<open>Only truthy values are recorded\<close>

lemma rule_matches_value:
  assumes "m \<in> set (rule_matches f fm t)"
  shows "standardized_value m \<noteq> []"
proof (cases "fm_match fm t")
  case (Str v)
  with assms show ?thesis by (cases "v = []") (simp_all add: rule_matches_def)
qed (use assms in \<open>simp_all add: rule_matches_def\<close>)

text \<open>
  C10. Every match \<open>parseToken\<close> records, for any token and so for every token of a
  parsed line, has a non-empty standardized value. The token \<open>PSI\<close> satisfies the
  pattern of the POUNDS rule, the rule's extraction is \<open>undefined\<close> for it, and
  \<open>parseToken\<close> records no match.
\<close>

theorem C10_truthy_values:
  "(\<forall>t. \<forall>m \<in> set (matches (parseToken t)). standardized_value m \<noteq> [])
   \<and> (\<forall>line results. parseLine line = Some results \<longrightarrow>
         (\<forall>mr \<in> set results. \<forall>m \<in> set (matches mr). standardized_value m \<noteq> []))
   \<and> js_match ''PSI'' re_POUNDS \<noteq> None
   \<and> match_POUNDS ''PSI'' = Undefined
   \<and> matches (parseToken ''PSI'') = []"
proof -
  have 1: "standardized_value m \<noteq> []" if "m \<in> set (matches (parseToken t))" for m t
    using that rule_matches_value
    by (auto simp: parseToken_def parseToken_in_def)
  have 2: "standardized_value m \<noteq> []"
    if "parseLine line = Some results" "mr \<in> set results" "m \<in> set (matches mr)"
    for line results mr m
    using that 1 by (auto simp: parseLine_def)
  have 3: "js_match ''PSI'' re_POUNDS \<noteq> None" by code_simp
  have 4: "match_POUNDS ''PSI'' = Undefined" by code_simp
  have 5: "matches (parseToken ''PSI'') = []" by code_simp
  from 1 2 3 4 5 show ?thesis by blast
qed

text \<open>The line \<open>CL 150\<close>: one token, one match, with value \<open>150\<close>.\<close>

theorem C10_witness:
  "parseLine ''CL 150'' = Some [parseToken ''CL 150'']
   \<and> matches (parseToken ''CL 150'') =
       [\<lparr>spec_field_kind = ''PRESSURE RATING'', field_match_kind = ''POUNDS'',
         standardized_value = ''150''\<rparr>]
   \<and> standardized_value \<lparr>spec_field_kind = ''PRESSURE RATING'', field_match_kind = ''POUNDS'',
         standardized_value = ''150''\<rparr> \<noteq> []"
proof -
  have "tokenizeLine ''CL 150'' = Some [''CL 150'']"
    by code_simp
  then have a: "parseLine ''CL 150'' = Some [parseToken ''CL 150'']"
    by (simp add: parseLine_def)
  have b: "matches (parseToken ''CL 150'') =
       [\<lparr>spec_field_kind = ''PRESSURE RATING'', field_match_kind = ''POUNDS'',
         standardized_value = ''150''\<rparr>]"
    by code_simp
  from C10_truthy_values a
  have "\<forall>m \<in> set (matches (parseToken ''CL 150'')). standardized_value m \<noteq> []"
    by fastforce
  with a b show ?thesis by simp
qed

section \<open>No rule matches a string that ends with a closing brace\<close>

lemma js_match_last_char:
  assumes b: "starts_at_bol r" and e: "ends_at_eol r" and c: "x \<notin> set (last_chars r)"
  shows "js_match (s @ [x]) r = None"
proof (cases "js_match (s @ [x]) r")
  case (Some m)
  then obtain p' rest' c' others where h: "ms r 0 (s @ [x]) [] = (p', rest', c') # others"
    unfolding js_match_at_bol [OF b] by (auto split: list.splits)
  then have mem: "(p', rest', c') \<in> set (ms r 0 (s @ [x]) [])" by simp
  from ms_ends_at_eol [OF e mem] have "rest' = []" .
  with mem have "(p', rest', c') \<in> set (ms r 0 ((s @ [x]) @ rest') [])" by simp
  from ms_last [OF this] have "last (s @ [x]) \<in> set (last_chars r)" by simp
  with c show ?thesis by simp
qed simp

lemma catalog_no_brace:
  "CHR ''}'' \<notin> set (last_chars re_FLANGE)"
  "CHR ''}'' \<notin> set (last_chars re_PIPE)"
  "CHR ''}'' \<notin> set (last_chars re_INCHES)"
  "CHR ''}'' \<notin> set (last_chars re_WELD_NECK)"
  "CHR ''}'' \<notin> set (last_chars re_POUNDS)"
  "CHR ''}'' \<notin> set (last_chars re_SCHEDULE_INCHES)"
  "CHR ''}'' \<notin> set (last_chars re_SCHEDULE_STANDARD)"
  "CHR ''}'' \<notin> set (last_chars re_SCHEDULE_EXTRA_HEAVY)"
  "CHR ''}'' \<notin> set (last_chars re_ASME_STANDARD)"
  "CHR ''}'' \<notin> set (last_chars re_STEEL_TYPE)"
  "CHR ''}'' \<notin> set (last_chars re_CARBON_STEEL)"
  by (simp_all add: re_FLANGE_def re_PIPE_def re_INCHES_def re_WELD_NECK_def re_POUNDS_def
      re_SCHEDULE_INCHES_def re_SCHEDULE_STANDARD_def re_SCHEDULE_EXTRA_HEAVY_def
      re_ASME_STANDARD_def re_STEEL_TYPE_def re_CARBON_STEEL_def)

lemma brace_Null:
  "match_FLANGE (s @ ''}'') = Null"
  "match_PIPE (s @ ''}'') = Null"
  "match_INCHES (s @ ''}'') = Null"
  "match_WELD_NECK (s @ ''}'') = Null"
  "match_POUNDS (s @ ''}'') = Null"
  "match_SCHEDULE_INCHES (s @ ''}'') = Null"
  "match_SCHEDULE_STANDARD (s @ ''}'') = Null"
  "match_SCHEDULE_EXTRA_HEAVY (s @ ''}'') = Null"
  "match_ASME_STANDARD (s @ ''}'') = Null"
  "match_STEEL_TYPE (s @ ''}'') = Null"
  "match_CARBON_STEEL (s @ ''}'') = Null"
  by (simp_all add: match_FLANGE_def match_PIPE_def match_INCHES_def match_WELD_NECK_def
        match_POUNDS_def
        match_SCHEDULE_INCHES_def match_SCHEDULE_STANDARD_def match_SCHEDULE_EXTRA_HEAVY_def
        match_ASME_STANDARD_def match_STEEL_TYPE_def match_CARBON_STEEL_def
        constant_on_match_def group_on_match_def
        js_match_last_char catalog_anchors catalog_no_brace)

lemma brace_rules:
  "\<forall>f \<in> set SPECIFICATION. \<forall>m \<in> set (matchers f). \<forall>s. fm_match m (s @ ''}'') = Null"
  by (simp add: SPECIFICATION_def brace_Null)

lemma brace_parseToken: "matches (parseToken (s @ ''}'')) = []"
  using brace_rules by (auto simp: parseToken_def parseToken_in_def rule_matches_def)

section \<open>The tokenizer loop\<close>

lemma window2_never: "window2 candidates i = Some None"
proof -
  have "matches (parseToken (a @ '' '' @ b @ ''}'')) = []" for a b
    using brace_parseToken [of "a @ '' '' @ b"] by simp
  then show ?thesis
    by (auto simp: window2_def at_def)
qed

lemma window3_cases:
  "window3 candidates i = Some None \<or>
   (i + 3 \<le> length candidates \<and>
    window3 candidates i = Some (Some (token (candidates ! i) @ '' '' @ token (candidates ! (i + 1))
                                        @ '' '' @ token (candidates ! (i + 2)))))"
  by (auto simp: window3_def at_def Let_def)

lemma tokenizeLoop_step:
  "tokenizeLoop candidates i result =
     (if i < length candidates
      then (case window3 candidates i of
              None \<Rightarrow> None
            | Some (Some s) \<Rightarrow> tokenizeLoop candidates (i + 3) (result @ [s])
            | Some None \<Rightarrow> tokenizeLoop candidates (i + 1) (result @ [token (candidates ! i)]))
      else Some result)"
  by (subst tokenizeLoop.simps)
     (simp add: window2_never at_def numeral_3_eq_3 split: option.splits)

lemma tokenizeLoop_total: "\<exists>toks. tokenizeLoop candidates i result = Some toks"
proof (induction "length candidates - i" arbitrary: i result rule: less_induct)
  case less
  show ?case
  proof (cases "i < length candidates")
    case False
    then show ?thesis by (subst tokenizeLoop_step) simp
  next
    case True
    then have 1: "length candidates - (i + 1) < length candidates - i"
      and 3: "length candidates - (i + 3) < length candidates - i" by arith+
    from window3_cases [of candidates i] show ?thesis
    proof
      assume w: "window3 candidates i = Some None"
      from less [OF 1, of "result @ [token (candidates ! i)]"] True w
      show ?thesis by (subst tokenizeLoop_step) simp
    next
      assume w: "i + 3 \<le> length candidates \<and>
        window3 candidates i = Some (Some (token (candidates ! i) @ '' '' @ token (candidates ! (i + 1))
                                        @ '' '' @ token (candidates ! (i + 2))))"
      from less [OF 3] True w
      show ?thesis by (subst tokenizeLoop_step) simp
    qed
  qed
qed

lemma tokenizeLoop_append:
  "tokenizeLoop candidates i result =
     map_option (\<lambda>toks. result @ toks) (tokenizeLoop candidates i [])"
proof (induction "length candidates - i" arbitrary: i result rule: less_induct)
  case less
  show ?case
  proof (cases "i < length candidates")
    case False
    then show ?thesis
      by (subst tokenizeLoop_step, subst (2) tokenizeLoop_step) simp
  next
    case True
    then have 1: "length candidates - (i + 1) < length candidates - i"
      and 3: "length candidates - (i + 3) < length candidates - i" by arith+
    from window3_cases [of candidates i] show ?thesis
    proof
      assume w: "window3 candidates i = Some None"
      have "tokenizeLoop candidates i result
          = tokenizeLoop candidates (i + 1) (result @ [token (candidates ! i)])"
        using True w by (subst tokenizeLoop_step) simp
      also have "\<dots> = map_option (\<lambda>toks. (result @ [token (candidates ! i)]) @ toks)
                          (tokenizeLoop candidates (i + 1) [])"
        by (rule less [OF 1])
      also have "\<dots> = map_option (\<lambda>toks. result @ toks)
                          (map_option (\<lambda>toks. [token (candidates ! i)] @ toks)
                             (tokenizeLoop candidates (i + 1) []))"
        by (simp add: option.map_comp comp_def)
      also have "map_option (\<lambda>toks. [token (candidates ! i)] @ toks)
                             (tokenizeLoop candidates (i + 1) [])
          = tokenizeLoop candidates (i + 1) [token (candidates ! i)]"
        by (rule less [OF 1, symmetric])
      also have "\<dots> = tokenizeLoop candidates i []"
        using True w by (subst (2) tokenizeLoop_step) simp
      finally show ?thesis .
    next
      let ?s = "token (candidates ! i) @ '' '' @ token (candidates ! (i + 1))
                                        @ '' '' @ token (candidates ! (i + 2))"
      assume w: "i + 3 \<le> length candidates \<and> window3 candidates i = Some (Some ?s)"
      have "tokenizeLoop candidates i result = tokenizeLoop candidates (i + 3) (result @ [?s])"
        using True w by (subst tokenizeLoop_step) simp
      also have "\<dots> = map_option (\<lambda>toks. (result @ [?s]) @ toks)
                          (tokenizeLoop candidates (i + 3) [])"
        by (rule less [OF 3])
      also have "\<dots> = map_option (\<lambda>toks. result @ toks)
                          (map_option (\<lambda>toks. [?s] @ toks) (tokenizeLoop candidates (i + 3) []))"
        by (simp add: option.map_comp comp_def)
      also have "map_option (\<lambda>toks. [?s] @ toks) (tokenizeLoop candidates (i + 3) [])
          = tokenizeLoop candidates (i + 3) [?s]"
        by (rule less [OF 3, symmetric])
      also have "\<dots> = tokenizeLoop candidates i []"
        using True w by (subst (2) tokenizeLoop_step) simp
      finally show ?thesis .
    qed
  qed
qed

lemma token_parseToken: "token (parseToken s) = s"
  by (simp add: parseToken_def parseToken_in_def)

lemma tokenizeLoop_tokens:
  assumes "tokenizeLoop candidates i result = Some toks" and "t \<in> set toks"
  shows "t \<in> set result \<or> (\<exists>j<length candidates. t = token (candidates ! j)) \<or>
         (\<exists>j. j + 2 < length candidates \<and>
              t = token (candidates ! j) @ '' '' @ token (candidates ! (j + 1)) @ '' ''
                  @ token (candidates ! (j + 2)))"
  using assms
proof (induction "length candidates - i" arbitrary: i result rule: less_induct)
  case less
  show ?case
  proof (cases "i < length candidates")
    case False
    with less.prems show ?thesis by (subst (asm) tokenizeLoop_step) simp
  next
    case True
    then have 1: "length candidates - (i + 1) < length candidates - i"
      and 3: "length candidates - (i + 3) < length candidates - i" by arith+
    from window3_cases [of candidates i] show ?thesis
    proof
      assume w: "window3 candidates i = Some None"
      with less.prems(1) True
      have "tokenizeLoop candidates (i + 1) (result @ [token (candidates ! i)]) = Some toks"
        by (subst (asm) tokenizeLoop_step) simp
      from less.hyps [OF 1 this less.prems(2)] True show ?thesis by auto
    next
      let ?s = "token (candidates ! i) @ '' '' @ token (candidates ! (i + 1))
                                        @ '' '' @ token (candidates ! (i + 2))"
      assume w: "i + 3 \<le> length candidates \<and> window3 candidates i = Some (Some ?s)"
      with less.prems(1) True
      have "tokenizeLoop candidates (i + 3) (result @ [?s]) = Some toks"
        by (subst (asm) tokenizeLoop_step) simp
      from less.hyps [OF 3 this less.prems(2)]
      consider "t \<in> set result" | "t = ?s"
        | "\<exists>j<length candidates. t = token (candidates ! j)"
        | "\<exists>j. j + 2 < length candidates \<and>
              t = token (candidates ! j) @ '' '' @ token (candidates ! (j + 1)) @ '' ''
                  @ token (candidates ! (j + 2))"
        by auto
      then show ?thesis
      proof cases
        case 2
        from w have "i + 2 < length candidates" by simp
        with 2 show ?thesis by blast
      qed blast+
    qed
  qed
qed

text \<open>
  C9. No rule of the catalog returns anything but \<open>null\<close> for a string whose last
  character is a closing brace, so \<open>parseToken\<close> finds no match for such a string and
  the two-candidate window of the loop never pushes a token. Every token \<open>tokenizeLine\<close>
  returns is a comma-split candidate or three consecutive candidates joined by single
  spaces.
\<close>

theorem C9_no_two_way_merge:
  "(\<forall>f \<in> set SPECIFICATION. \<forall>m \<in> set (matchers f). \<forall>s. fm_match m (s @ ''}'') = Null)
   \<and> (\<forall>s. matches (parseToken (s @ ''}'')) = [])
   \<and> (\<forall>candidates i. window2 candidates i = Some None)
   \<and> (\<forall>line toks. tokenizeLine line = Some toks \<longrightarrow>
         (\<forall>t \<in> set toks.
            t \<in> set (split_comma line) \<or>
            (\<exists>j. j + 2 < length (split_comma line) \<and>
                 t = split_comma line ! j @ '' '' @ split_comma line ! (j + 1) @ '' ''
                     @ split_comma line ! (j + 2))))"
proof (intro conjI allI impI ballI)
  fix line toks t
  assume a: "tokenizeLine line = Some toks" and t: "t \<in> set toks"
  let ?c = "split_comma line"
  from a have "tokenizeLoop (map parseToken ?c) 0 [] = Some toks"
    by (simp add: tokenizeLine_def)
  from tokenizeLoop_tokens [OF this t]
  consider j where "j < length ?c" "t = ?c ! j"
    | j where "j + 2 < length ?c"
        "t = ?c ! j @ '' '' @ ?c ! (j + 1) @ '' '' @ ?c ! (j + 2)"
    by (auto simp: token_parseToken)
  then show "t \<in> set ?c \<or>
            (\<exists>j. j + 2 < length ?c \<and> t = ?c ! j @ '' '' @ ?c ! (j + 1) @ '' '' @ ?c ! (j + 2))"
  proof cases
    case 1
    then show ?thesis by simp
  next
    case 2
    then show ?thesis by blast
  qed
qed (simp_all add: brace_rules [rule_format] brace_parseToken window2_never)

text \<open>The line \<open>WELD, NECK, FLANGE, CS\<close> and its token \<open>CS\<close>.\<close>

theorem C9_witness:
  "tokenizeLine ''WELD, NECK, FLANGE, CS'' = Some [''WELD NECK FLANGE'', ''CS'']
   \<and> split_comma ''WELD, NECK, FLANGE, CS'' = [''WELD'', ''NECK'', ''FLANGE'', ''CS'']
   \<and> (''CS'' \<in> set (split_comma ''WELD, NECK, FLANGE, CS'') \<or>
      (\<exists>j. j + 2 < length (split_comma ''WELD, NECK, FLANGE, CS'') \<and>
           ''CS'' = split_comma ''WELD, NECK, FLANGE, CS'' ! j @ '' ''
              @ split_comma ''WELD, NECK, FLANGE, CS'' ! (j + 1) @ '' ''
              @ split_comma ''WELD, NECK, FLANGE, CS'' ! (j + 2)))"
proof -
  have a: "tokenizeLine ''WELD, NECK, FLANGE, CS'' = Some [''WELD NECK FLANGE'', ''CS'']"
    by code_simp
  have b: "split_comma ''WELD, NECK, FLANGE, CS'' = [''WELD'', ''NECK'', ''FLANGE'', ''CS'']"
    by code_simp
  have c: "''CS'' \<in> set [''WELD NECK FLANGE'', ''CS'']" by simp
  from C9_no_two_way_merge a c show ?thesis using b by blast
qed

text \<open>
  C2. The claim has the two-candidate window classify the two candidates joined by one
  space and nothing else. The code classifies that string followed by a closing brace:
  on the line \<open>SCH, STD\<close> the window tests \<open>SCH STD}\<close>, which has no match, and the
  two candidates are pushed apart, although \<open>SCH STD\<close> has a match.
\<close>

theorem C2_two_way_window:
  "tokenizeLine ''SCH, STD'' = Some [''SCH'', ''STD'']
   \<and> window2 (map parseToken [''SCH'', ''STD'']) 0 = Some None
   \<and> matches (parseToken ''SCH STD}'') = []
   \<and> matches (parseToken ''SCH STD'') =
       [\<lparr>spec_field_kind = ''BORE SCHEDULE SIZE'', field_match_kind = ''SCHEDULE STANDARD'',
         standardized_value = ''STANDARD''\<rparr>]"
  by code_simp

lemma merge3_parseToken:
  "merge3 (map parseToken cs) j = cs ! j @ '' '' @ cs ! (j + 1) @ '' '' @ cs ! (j + 2)"
  if "j + 3 \<le> length cs"
  using that by (simp add: merge3_def token_parseToken)

lemma window3_accepts:
  "window3 candidates i = Some (Some (merge3 candidates i))"
  if "i + 3 \<le> length candidates" "length (matches (parseToken (merge3 candidates i))) > 0"
  using that by (simp add: window3_def at_def merge3_def)

lemma window3_declines:
  "window3 candidates i = Some None"
  if "i + 3 \<le> length candidates" "length (matches (parseToken (merge3 candidates i))) = 0"
  using that by (simp add: window3_def at_def merge3_def)

lemma tokenizeLoop_merge:
  assumes "i + 3 \<le> length candidates"
    and "length (matches (parseToken (merge3 candidates i))) > 0"
  shows "tokenizeLoop candidates i result =
           tokenizeLoop candidates (i + 3) (result @ [merge3 candidates i])"
    and "\<exists>rest. tokenizeLoop candidates (i + 3) [] = Some rest \<and>
           tokenizeLoop candidates i result = Some (result @ [merge3 candidates i] @ rest)"
proof -
  from assms(1) have lt: "i < length candidates" by simp
  from window3_accepts [OF assms] lt
  show step: "tokenizeLoop candidates i result =
           tokenizeLoop candidates (i + 3) (result @ [merge3 candidates i])"
    by (subst tokenizeLoop_step) simp
  from tokenizeLoop_total [of candidates "i + 3" "[]"]
  obtain rest where rest: "tokenizeLoop candidates (i + 3) [] = Some rest" by blast
  have "tokenizeLoop candidates (i + 3) (result @ [merge3 candidates i])
      = Some ((result @ [merge3 candidates i]) @ rest)"
    using rest by (subst tokenizeLoop_append) simp
  with step have "tokenizeLoop candidates i result = Some (result @ [merge3 candidates i] @ rest)"
    by simp
  with rest
  show "\<exists>rest. tokenizeLoop candidates (i + 3) [] = Some rest \<and>
           tokenizeLoop candidates i result = Some (result @ [merge3 candidates i] @ rest)"
    by blast
qed

lemma tokenizeLoop_no_merge:
  assumes "i + 3 \<le> length candidates"
    and "length (matches (parseToken (merge3 candidates i))) = 0"
  shows "tokenizeLoop candidates i result =
           (case window2 candidates i of
              None \<Rightarrow> None
            | Some (Some s) \<Rightarrow> tokenizeLoop candidates (i + 1 + 1) (result @ [s])
            | Some None \<Rightarrow> tokenizeLoop candidates (i + 1) (result @ [token (candidates ! i)]))"
    and "\<exists>rest. tokenizeLoop candidates (i + 1) [] = Some rest \<and>
           tokenizeLoop candidates i result = Some (result @ [token (candidates ! i)] @ rest)"
proof -
  from assms(1) have lt: "i < length candidates" by simp
  from window3_declines [OF assms] lt
  show "tokenizeLoop candidates i result =
           (case window2 candidates i of
              None \<Rightarrow> None
            | Some (Some s) \<Rightarrow> tokenizeLoop candidates (i + 1 + 1) (result @ [s])
            | Some None \<Rightarrow> tokenizeLoop candidates (i + 1) (result @ [token (candidates ! i)]))"
    by (subst tokenizeLoop.simps) (simp add: at_def split: option.splits)
  from window3_declines [OF assms] lt
  have step: "tokenizeLoop candidates i result =
      tokenizeLoop candidates (i + 1) (result @ [token (candidates ! i)])"
    by (subst tokenizeLoop_step) simp
  from tokenizeLoop_total [of candidates "i + 1" "[]"]
  obtain rest where rest: "tokenizeLoop candidates (i + 1) [] = Some rest" by blast
  have "tokenizeLoop candidates (i + 1) (result @ [token (candidates ! i)])
      = Some ((result @ [token (candidates ! i)]) @ rest)"
    using rest by (subst tokenizeLoop_append) simp
  with step
  have "tokenizeLoop candidates i result = Some (result @ [token (candidates ! i)] @ rest)"
    by simp
  with rest
  show "\<exists>rest. tokenizeLoop candidates (i + 1) [] = Some rest \<and>
           tokenizeLoop candidates i result = Some (result @ [token (candidates ! i)] @ rest)"
    by blast
qed

text \<open>
  C6. At a cursor \<open>i\<close> with at least three candidates left the three-candidate merge
  is classified first, and that alone decides the window. If the merge has a match, the
  window accepts it, the loop goes on from \<open>i + 3\<close> with the merge pushed, and the final
  result is what was pushed before, the merge, and what the loop produces from \<open>i + 3\<close>
  on: the two-candidate window and the candidate alone play no part, and the merge is not
  revised. If the merge has no match, the window declines, the loop falls through to the
  two-candidate window and the single candidate, and the final result continues with the
  candidate at \<open>i\<close> and what the loop produces from \<open>i + 1\<close> on. \<open>tokenizeLine\<close> is
  this loop from cursor 0 over the parsed comma-split candidates, so the same holds of its
  result at every cursor \<open>j\<close> the loop comes to with \<open>pushed\<close> emitted so far, and in
  particular at cursor 0 for the first three candidates of the line.
\<close>

theorem C6_three_way_first:
  "(i + 3 \<le> length candidates \<and> length (matches (parseToken (merge3 candidates i))) > 0 \<longrightarrow>
      window3 candidates i = Some (Some (merge3 candidates i))
      \<and> tokenizeLoop candidates i result =
          tokenizeLoop candidates (i + 3) (result @ [merge3 candidates i])
      \<and> (\<exists>rest. tokenizeLoop candidates (i + 3) [] = Some rest \<and>
            tokenizeLoop candidates i result = Some (result @ [merge3 candidates i] @ rest)))
   \<and> (i + 3 \<le> length candidates \<and> length (matches (parseToken (merge3 candidates i))) = 0 \<longrightarrow>
      window3 candidates i = Some None
      \<and> tokenizeLoop candidates i result =
          (case window2 candidates i of
             None \<Rightarrow> None
           | Some (Some s) \<Rightarrow> tokenizeLoop candidates (i + 1 + 1) (result @ [s])
           | Some None \<Rightarrow> tokenizeLoop candidates (i + 1) (result @ [token (candidates ! i)]))
      \<and> (\<exists>rest. tokenizeLoop candidates (i + 1) [] = Some rest \<and>
            tokenizeLoop candidates i result = Some (result @ [token (candidates ! i)] @ rest)))
   \<and> tokenizeLine line = tokenizeLoop (map parseToken (split_comma line)) 0 []
   \<and> (j + 3 \<le> length (split_comma line) \<longrightarrow>
        merge3 (map parseToken (split_comma line)) j =
          split_comma line ! j @ '' '' @ split_comma line ! (j + 1) @ '' ''
            @ split_comma line ! (j + 2)
        \<and> token (map parseToken (split_comma line) ! j) = split_comma line ! j)
   \<and> (tokenizeLoop (map parseToken (split_comma line)) 0 []
          = tokenizeLoop (map parseToken (split_comma line)) j pushed
        \<and> j + 3 \<le> length (split_comma line)
        \<and> length (matches (parseToken (merge3 (map parseToken (split_comma line)) j))) > 0 \<longrightarrow>
        (\<exists>rest. tokenizeLoop (map parseToken (split_comma line)) (j + 3) [] = Some rest \<and>
           tokenizeLine line
             = Some (pushed @ [merge3 (map parseToken (split_comma line)) j] @ rest)))
   \<and> (tokenizeLoop (map parseToken (split_comma line)) 0 []
          = tokenizeLoop (map parseToken (split_comma line)) j pushed
        \<and> j + 3 \<le> length (split_comma line)
        \<and> length (matches (parseToken (merge3 (map parseToken (split_comma line)) j))) = 0 \<longrightarrow>
        (\<exists>rest. tokenizeLoop (map parseToken (split_comma line)) (j + 1) [] = Some rest \<and>
           tokenizeLine line = Some (pushed @ [split_comma line ! j] @ rest)))
   \<and> (3 \<le> length (split_comma line) \<longrightarrow>
        (if length (matches (parseToken (split_comma line ! 0 @ '' '' @ split_comma line ! 1
                                          @ '' '' @ split_comma line ! 2))) > 0
         then \<exists>rest. tokenizeLoop (map parseToken (split_comma line)) 3 [] = Some rest \<and>
                tokenizeLine line
                  = Some ((split_comma line ! 0 @ '' '' @ split_comma line ! 1
                             @ '' '' @ split_comma line ! 2) # rest)
         else \<exists>rest. tokenizeLoop (map parseToken (split_comma line)) 1 [] = Some rest \<and>
                tokenizeLine line = Some (split_comma line ! 0 # rest)))"
proof (intro conjI impI)
  let ?c = "map parseToken (split_comma line)"
  show line: "tokenizeLine line = tokenizeLoop ?c 0 []"
    by (simp add: tokenizeLine_def)
  {
    assume a: "i + 3 \<le> length candidates \<and> length (matches (parseToken (merge3 candidates i))) > 0"
    then show "window3 candidates i = Some (Some (merge3 candidates i))"
      using window3_accepts [of i candidates] by blast
    from a show "tokenizeLoop candidates i result =
          tokenizeLoop candidates (i + 3) (result @ [merge3 candidates i])"
      using tokenizeLoop_merge(1) [of i candidates result] by blast
    from a show "\<exists>rest. tokenizeLoop candidates (i + 3) [] = Some rest \<and>
            tokenizeLoop candidates i result = Some (result @ [merge3 candidates i] @ rest)"
      using tokenizeLoop_merge(2) [of i candidates result] by blast
  }
  {
    assume a: "i + 3 \<le> length candidates \<and> length (matches (parseToken (merge3 candidates i))) = 0"
    then show "window3 candidates i = Some None"
      using window3_declines [of i candidates] by blast
    from a show "tokenizeLoop candidates i result =
          (case window2 candidates i of
             None \<Rightarrow> None
           | Some (Some s) \<Rightarrow> tokenizeLoop candidates (i + 1 + 1) (result @ [s])
           | Some None \<Rightarrow> tokenizeLoop candidates (i + 1) (result @ [token (candidates ! i)]))"
      using tokenizeLoop_no_merge(1) [of i candidates result] by blast
    from a show "\<exists>rest. tokenizeLoop candidates (i + 1) [] = Some rest \<and>
            tokenizeLoop candidates i result = Some (result @ [token (candidates ! i)] @ rest)"
      using tokenizeLoop_no_merge(2) [of i candidates result] by blast
  }
  {
    assume a: "j + 3 \<le> length (split_comma line)"
    then show "merge3 ?c j =
          split_comma line ! j @ '' '' @ split_comma line ! (j + 1) @ '' ''
            @ split_comma line ! (j + 2)"
      by (rule merge3_parseToken)
    from a show "token (?c ! j) = split_comma line ! j"
      by (simp add: token_parseToken)
  }
  {
    assume a: "tokenizeLoop ?c 0 [] = tokenizeLoop ?c j pushed
        \<and> j + 3 \<le> length (split_comma line)
        \<and> length (matches (parseToken (merge3 ?c j))) > 0"
    then have "j + 3 \<le> length ?c" and "length (matches (parseToken (merge3 ?c j))) > 0"
      by simp_all
    from tokenizeLoop_merge(2) [OF this, of pushed] a line
    show "\<exists>rest. tokenizeLoop ?c (j + 3) [] = Some rest \<and>
           tokenizeLine line = Some (pushed @ [merge3 ?c j] @ rest)"
      by metis
  }
  {
    assume a: "tokenizeLoop ?c 0 [] = tokenizeLoop ?c j pushed
        \<and> j + 3 \<le> length (split_comma line)
        \<and> length (matches (parseToken (merge3 ?c j))) = 0"
    then have l: "j + 3 \<le> length ?c" and z: "length (matches (parseToken (merge3 ?c j))) = 0"
      by simp_all
    from a have t: "token (?c ! j) = split_comma line ! j" by (simp add: token_parseToken)
    from tokenizeLoop_no_merge(2) [OF l z, of pushed] a line
    show "\<exists>rest. tokenizeLoop ?c (j + 1) [] = Some rest \<and>
           tokenizeLine line = Some (pushed @ [split_comma line ! j] @ rest)"
      unfolding t by metis
  }
  {
    assume a: "3 \<le> length (split_comma line)"
    then have l: "0 + 3 \<le> length ?c" by simp
    from a have m: "merge3 ?c 0 = split_comma line ! 0 @ '' '' @ split_comma line ! 1
                                          @ '' '' @ split_comma line ! 2"
      using merge3_parseToken [of 0 "split_comma line"] by (simp add: numeral_2_eq_2)
    from a have t: "token (?c ! 0) = split_comma line ! 0"
      by (cases "split_comma line") (simp_all add: token_parseToken)
    show "if length (matches (parseToken (split_comma line ! 0 @ '' '' @ split_comma line ! 1
                                          @ '' '' @ split_comma line ! 2))) > 0
         then \<exists>rest. tokenizeLoop ?c 3 [] = Some rest \<and>
                tokenizeLine line
                  = Some ((split_comma line ! 0 @ '' '' @ split_comma line ! 1
                             @ '' '' @ split_comma line ! 2) # rest)
         else \<exists>rest. tokenizeLoop ?c 1 [] = Some rest \<and>
                tokenizeLine line = Some (split_comma line ! 0 # rest)"
    proof (cases "length (matches (parseToken (merge3 ?c 0))) > 0")
      case True
      from tokenizeLoop_merge(2) [OF l True, of "[]"]
      obtain rest where "tokenizeLoop ?c 3 [] = Some rest"
        "tokenizeLoop ?c 0 [] = Some ([] @ [merge3 ?c 0] @ rest)" by auto
      with True line m show ?thesis by auto
    next
      case False
      then have z: "length (matches (parseToken (merge3 ?c 0))) = 0" by simp
      from tokenizeLoop_no_merge(2) [OF l z, of "[]"]
      obtain rest where "tokenizeLoop ?c 1 [] = Some rest"
        "tokenizeLoop ?c 0 [] = Some ([] @ [token (?c ! 0)] @ rest)" by auto
      with False line m t show ?thesis by auto
    qed
  }
qed

text \<open>
  The line \<open>FLG, WELD, NECK, FLANGE\<close>: no match at cursor 0, a match at cursor 1; and the
  line \<open>WELD, NECK, FLANGE, CS\<close>: a match at cursor 0.
\<close>

theorem C6_witness:
  "split_comma ''FLG, WELD, NECK, FLANGE'' = [''FLG'', ''WELD'', ''NECK'', ''FLANGE'']
   \<and> length (matches (parseToken ''FLG WELD NECK'')) = 0
   \<and> length (matches (parseToken ''WELD NECK FLANGE'')) > 0
   \<and> window3 (map parseToken [''FLG'', ''WELD'', ''NECK'', ''FLANGE'']) 0 = Some None
   \<and> window3 (map parseToken [''FLG'', ''WELD'', ''NECK'', ''FLANGE'']) 1
       = Some (Some ''WELD NECK FLANGE'')
   \<and> tokenizeLoop (map parseToken [''FLG'', ''WELD'', ''NECK'', ''FLANGE'']) 1 [''FLG'']
       = Some [''FLG'', ''WELD NECK FLANGE'']
   \<and> tokenizeLine ''FLG, WELD, NECK, FLANGE'' = Some [''FLG'', ''WELD NECK FLANGE'']
   \<and> tokenizeLine ''WELD, NECK, FLANGE, CS'' = Some [''WELD NECK FLANGE'', ''CS'']"
proof -
  let ?L = "''FLG, WELD, NECK, FLANGE''"
  let ?c = "map parseToken [''FLG'', ''WELD'', ''NECK'', ''FLANGE'']"
  have sp: "split_comma ?L = [''FLG'', ''WELD'', ''NECK'', ''FLANGE'']" by code_simp
  have n: "length (matches (parseToken ''FLG WELD NECK'')) = 0" by code_simp
  have y: "length (matches (parseToken ''WELD NECK FLANGE'')) > 0" by code_simp
  have g0: "merge3 ?c 0 = ''FLG WELD NECK''" by (simp add: merge3_def token_parseToken)
  have g1: "merge3 ?c 1 = ''WELD NECK FLANGE''" by (simp add: merge3_def token_parseToken)
  have l0: "0 + 3 \<le> length ?c" and l1: "1 + 3 \<le> length ?c" by simp_all
  have r4: "tokenizeLoop ?c (1 + 3) [] = Some []" by code_simp
  have reach: "tokenizeLoop ?c 0 [] = tokenizeLoop ?c 1 [''FLG'']" by code_simp
  note at0 = C6_three_way_first [where i = 0 and candidates = ?c and result = "[]"
      and line = ?L and j = 0 and pushed = "[]"]
  note at1 = C6_three_way_first [where i = 1 and candidates = ?c and result = "[''FLG'']"
      and line = ?L and j = 1 and pushed = "[''FLG'']"]
  from at0 l0 n g0 have w0: "window3 ?c 0 = Some None" by metis
  from at1 l1 y g1 have w1: "window3 ?c 1 = Some (Some ''WELD NECK FLANGE'')" by metis
  from at1 l1 y g1
  obtain rest where "tokenizeLoop ?c (1 + 3) [] = Some rest"
    and "tokenizeLoop ?c 1 [''FLG''] = Some ([''FLG''] @ [''WELD NECK FLANGE''] @ rest)"
    by metis
  with r4 have loop1: "tokenizeLoop ?c 1 [''FLG''] = Some [''FLG'', ''WELD NECK FLANGE'']"
    by simp
  have pre: "tokenizeLoop (map parseToken (split_comma ?L)) 0 []
        = tokenizeLoop (map parseToken (split_comma ?L)) 1 [''FLG'']
      \<and> 1 + 3 \<le> length (split_comma ?L)
      \<and> length (matches (parseToken (merge3 (map parseToken (split_comma ?L)) 1))) > 0"
    unfolding sp using reach y g1 by simp
  from at1 pre
  obtain rest' where "tokenizeLoop (map parseToken (split_comma ?L)) (1 + 3) [] = Some rest'"
    and "tokenizeLine ?L
      = Some ([''FLG''] @ [merge3 (map parseToken (split_comma ?L)) 1] @ rest')"
    by metis
  with r4 g1 have line1: "tokenizeLine ?L = Some [''FLG'', ''WELD NECK FLANGE'']"
    unfolding sp by simp
  let ?M = "''WELD, NECK, FLANGE, CS''"
  have spM: "split_comma ?M = [''WELD'', ''NECK'', ''FLANGE'', ''CS'']" by code_simp
  have rM: "tokenizeLoop (map parseToken [''WELD'', ''NECK'', ''FLANGE'', ''CS'']) 3 []
      = Some [''CS'']" by code_simp
  from C6_three_way_first [where line = ?M]
  have "3 \<le> length (split_comma ?M) \<longrightarrow>
        (if length (matches (parseToken (split_comma ?M ! 0 @ '' '' @ split_comma ?M ! 1
                                          @ '' '' @ split_comma ?M ! 2))) > 0
         then \<exists>rest. tokenizeLoop (map parseToken (split_comma ?M)) 3 [] = Some rest \<and>
                tokenizeLine ?M
                  = Some ((split_comma ?M ! 0 @ '' '' @ split_comma ?M ! 1
                             @ '' '' @ split_comma ?M ! 2) # rest)
         else \<exists>rest. tokenizeLoop (map parseToken (split_comma ?M)) 1 [] = Some rest \<and>
                tokenizeLine ?M = Some (split_comma ?M ! 0 # rest))"
    by blast
  with y rM have line2: "tokenizeLine ?M = Some [''WELD NECK FLANGE'', ''CS'']"
    unfolding spM by simp
  from sp n y w0 w1 loop1 line1 line2 show ?thesis by simp
qed

section \<open>The test lines\<close>

text \<open>
  The first two test lines, where the commas separate the fields: every field gets the
  value the line shows.
\<close>

lemma test_line_1_values:
  "map_option (values_of ''PRODUCT TYPE'') (populated_fields test_line_1) = Some [''PIPE'']"
  "map_option (values_of ''BORE SCHEDULE SIZE'') (populated_fields test_line_1) = Some [''STANDARD'']"
  "map_option (values_of ''SIZE'') (populated_fields test_line_1) = Some [''3'']"
  by code_simp+

lemma test_line_2_values:
  "map_option (values_of ''PRODUCT TYPE'') (populated_fields test_line_2) = Some [''FLANGE'']"
  "map_option (values_of ''PRESSURE RATING'') (populated_fields test_line_2) = Some [''150'']"
  "map_option (values_of ''BORE SCHEDULE SIZE'') (populated_fields test_line_2) = Some [''STANDARD'']"
  "map_option (values_of ''MATERIAL'') (populated_fields test_line_2) = Some [''A105'', ''ASME B16.5'']"
  "map_option (values_of ''SIZE'') (populated_fields test_line_2) = Some [''20'']"
  by code_simp+

text \<open>
  C1 (counterexample). For the third test line the MATERIAL field does not list both
  \<open>A105\<close> and \<open>ASME B16.5\<close>.
\<close>

theorem C1_counterexample:
  "\<not> (case populated_fields test_line_3 of
         None \<Rightarrow> False
       | Some populated \<Rightarrow> ''A105'' \<in> set (values_of ''MATERIAL'' populated)
                          \<and> ''ASME B16.5'' \<in> set (values_of ''MATERIAL'' populated))"
  by code_simp

text \<open>
  C1 (amended). The third test line has no comma between \<open>FCS A105\<close> and
  \<open>ASME B16.5\<close>: its five comma-split candidates are returned unchanged, the MATERIAL
  field is empty, and \<open>FCS A105 ASME B16.5\<close> is listed under UNRECOGNIZED with
  \<open>FLG BLIND\<close> and \<open>RF\<close>; PRESSURE RATING has \<open>150\<close> and SIZE has \<open>20\<close>.
\<close>

theorem C1_test_line_3:
  "tokenizeLine test_line_3 =
     Some [''FLG BLIND'', ''RF'', ''CL 150'', ''FCS A105 ASME B16.5'', ''20'' @ [CHR 0x22]]
   \<and> split_comma test_line_3 =
     [''FLG BLIND'', ''RF'', ''CL 150'', ''FCS A105 ASME B16.5'', ''20'' @ [CHR 0x22]]
   \<and> map_option (values_of ''MATERIAL'') (populated_fields test_line_3) = Some []
   \<and> map_option (values_of ''UNRECOGNIZED'') (populated_fields test_line_3)
       = Some [''FLG BLIND'', ''RF'', ''FCS A105 ASME B16.5'']
   \<and> map_option (values_of ''PRESSURE RATING'') (populated_fields test_line_3) = Some [''150'']
   \<and> map_option (values_of ''SIZE'') (populated_fields test_line_3) = Some [''20'']"
  by code_simp

section \<open>Totality\<close>

text \<open>
  C8. \<open>tokenizeLine\<close>, \<open>parseLine\<close> and the whole pipeline return a result for every
  line: no array read of the loop is out of range. \<open>parseToken\<close> and
  \<open>populateSpecFields\<close> have no failing operation at all. The empty token has no
  match and, wherever it occurs among the results, is listed under UNRECOGNIZED with the
  empty string as its value; the empty line gives the one empty token.
\<close>

theorem C8_total:
  "(\<forall>line. \<exists>toks. tokenizeLine line = Some toks)
   \<and> (\<forall>line. \<exists>results. parseLine line = Some results)
   \<and> (\<forall>line. \<exists>populated. populated_fields line = Some populated)
   \<and> parseToken [] = \<lparr>token = [], matches = []\<rparr>
   \<and> tokenizeLine [] = Some [[]]
   \<and> parseLine [] = Some [\<lparr>token = [], matches = []\<rparr>]
   \<and> map_option (values_of ''UNRECOGNIZED'') (populated_fields []) = Some [[]]
   \<and> (\<forall>results. parseToken [] \<in> set results \<longrightarrow>
          \<lparr>pm_kind = ''UNRECOGNIZED'', pm_token = [], pm_value = []\<rparr>
            \<in> set (psf_matches (last (populateSpecFields results))))"
proof -
  have t: "\<exists>toks. tokenizeLine line = Some toks" for line
    unfolding tokenizeLine_def by (rule tokenizeLoop_total)
  then have p: "\<exists>results. parseLine line = Some results" for line
    unfolding parseLine_def using t [of line] by auto
  have f: "\<exists>populated. populated_fields line = Some populated" for line
    unfolding populated_fields_def using p [of line] by auto
  have e: "parseToken [] = \<lparr>token = [], matches = []\<rparr>" by code_simp
  have tl: "tokenizeLine [] = Some [[]]" by code_simp
  have pl: "parseLine [] = Some [\<lparr>token = [], matches = []\<rparr>]" by code_simp
  have pf: "map_option (values_of ''UNRECOGNIZED'') (populated_fields []) = Some [[]]"
    by code_simp
  have u: "\<lparr>pm_kind = ''UNRECOGNIZED'', pm_token = [], pm_value = []\<rparr>
            \<in> set (psf_matches (last (populateSpecFields results)))"
    if "parseToken [] \<in> set results" for results
  proof -
    from that have "\<lparr>token = [], matches = []\<rparr> \<in> set results" by (simp add: e)
    then have "\<lparr>pm_kind = ''UNRECOGNIZED'', pm_token = [], pm_value = []\<rparr>
        \<in> set (unrecognized_entries results)"
      by (force simp: unrecognized_entries_def)
    then show ?thesis by (simp add: populateSpecFields_def)
  qed
  from t p f e tl pl pf u show ?thesis by blast
qed

text \<open>The line \<open>PIPE,\<close>, whose second candidate is empty.\<close>

theorem C8_witness:
  "tokenizeLine ''PIPE,'' = Some [''PIPE'', []]
   \<and> parseToken [] \<in> set [parseToken ''PIPE'', parseToken []]
   \<and> \<lparr>pm_kind = ''UNRECOGNIZED'', pm_token = [], pm_value = []\<rparr>
        \<in> set (psf_matches (last (populateSpecFields [parseToken ''PIPE'', parseToken []])))"
proof -
  have a: "tokenizeLine ''PIPE,'' = Some [''PIPE'', []]" by code_simp
  have b: "parseToken [] \<in> set [parseToken ''PIPE'', parseToken []]" by simp
  from C8_total b a show ?thesis by blast
qed

section \<open>Aggregation partitions the results\<close>

lemma concat_if_filter:
  "concat (map (\<lambda>m. if P m then [f m] else []) xs) = map f (filter P xs)"
  by (induction xs) simp_all

lemma field_entries_tagged:
  "map (Pair k) (field_entries k rs) =
     concat (map (\<lambda>mr. map (tagged_entry mr) (filter (\<lambda>m. spec_field_kind m = k) (matches mr))) rs)"
proof (induction rs)
  case Nil
  then show ?case by (simp add: field_entries_def)
next
  case (Cons mr rs)
  have "map (Pair k) (map (\<lambda>m. \<lparr>pm_kind = field_match_kind m, pm_token = token mr,
                                 pm_value = standardized_value m\<rparr>)
                        (filter (\<lambda>m. spec_field_kind m = k) ms))
      = map (tagged_entry mr) (filter (\<lambda>m. spec_field_kind m = k) ms)" for ms
    by (induction ms) (simp_all add: tagged_entry_def)
  with Cons show ?case
    by (simp add: field_entries_def concat_if_filter)
qed

lemma mset_filter_disjoint:
  "mset (map f (filter (\<lambda>m. g m = k) xs)) + mset (map f (filter (\<lambda>m. g m \<in> set K) xs))
     = mset (map f (filter (\<lambda>m. g m \<in> set (k # K)) xs))" if "k \<notin> set K"
  using that by (induction xs) auto

lemma tagged_kinds:
  assumes "distinct K"
  shows "mset (concat (map (\<lambda>k. map (Pair k) (field_entries k rs)) K)) =
     mset (concat (map (\<lambda>mr. map (tagged_entry mr)
                                 (filter (\<lambda>m. spec_field_kind m \<in> set K) (matches mr))) rs))"
  using assms
proof (induction K)
  case Nil
  show ?case by (induction rs) simp_all
next
  case (Cons k K)
  then have k: "k \<notin> set K" and IH: "mset (concat (map (\<lambda>k. map (Pair k) (field_entries k rs)) K)) =
     mset (concat (map (\<lambda>mr. map (tagged_entry mr)
                                 (filter (\<lambda>m. spec_field_kind m \<in> set K) (matches mr))) rs))"
    by simp_all
  have split: "mset (concat (map (\<lambda>mr. map (tagged_entry mr)
                 (filter (\<lambda>m. spec_field_kind m = k) (matches mr))) rs))
      + mset (concat (map (\<lambda>mr. map (tagged_entry mr)
                 (filter (\<lambda>m. spec_field_kind m \<in> set K) (matches mr))) rs))
      = mset (concat (map (\<lambda>mr. map (tagged_entry mr)
                 (filter (\<lambda>m. spec_field_kind m \<in> set (k # K)) (matches mr))) rs))"
  proof (induction rs)
    case Nil
    show ?case by simp
  next
    case (Cons mr rs)
    from mset_filter_disjoint [OF k, of "tagged_entry mr" spec_field_kind "matches mr"] Cons
    show ?case by (simp add: ac_simps)
  qed
  show ?case
    using IH split by (simp add: field_entries_tagged)
qed

lemma catalog_kinds:
  "map sf_kind SPECIFICATION =
     [''PRODUCT TYPE'', ''SIZE'', ''FLANGE TYPE'', ''PRESSURE RATING'', ''BORE SCHEDULE SIZE'',
      ''MATERIAL'']"
  by (simp add: SPECIFICATION_def)

lemma catalog_kinds_distinct: "distinct (map sf_kind SPECIFICATION)"
  unfolding catalog_kinds by simp

lemma butlast_populate:
  "butlast (populateSpecFields rs) =
     map (\<lambda>spec_fld. \<lparr>psf_kind = sf_kind spec_fld,
                      psf_matches = field_entries (sf_kind spec_fld) rs\<rparr>) SPECIFICATION"
  by (simp add: populateSpecFields_def butlast_append)

lemma parseToken_kinds:
  "filter (\<lambda>m. spec_field_kind m \<in> set (map sf_kind SPECIFICATION)) (matches (parseToken t))
     = matches (parseToken t)"
proof -
  have "spec_field_kind m \<in> set (map sf_kind SPECIFICATION)" if "m \<in> set (matches (parseToken t))" for m
    using that
    by (auto simp: parseToken_def parseToken_in_def rule_matches_def Let_def split: if_splits jsval.splits)
  then show ?thesis by (simp add: filter_id_conv)
qed

text \<open>
  C7. The populated fields are the catalog fields in order and then UNRECOGNIZED. The
  entries of UNRECOGNIZED are exactly the results without a match, one entry each, in
  line order, with the token as value; a result with a match is not among them. Over the
  catalog fields, the entries tagged with the kind of their field are, counted with
  multiplicity, exactly the matches of the results tagged with the kind each names:
  every match that names a catalog field gives one entry, in that field and nowhere
  else. The catalog kinds are distinct, none is UNRECOGNIZED, and every match
  \<open>parseToken\<close> makes names a catalog field.
\<close>

theorem C7_partition:
  "map psf_kind (populateSpecFields rs) = map sf_kind SPECIFICATION @ [''UNRECOGNIZED'']
   \<and> psf_matches (last (populateSpecFields rs)) =
       map (\<lambda>mr. \<lparr>pm_kind = ''UNRECOGNIZED'', pm_token = token mr, pm_value = token mr\<rparr>)
           (filter (\<lambda>mr. matches mr = []) rs)
   \<and> mset (concat (map (\<lambda>f. map (Pair (psf_kind f)) (psf_matches f))
                        (butlast (populateSpecFields rs))))
       = mset (concat (map (\<lambda>mr. map (tagged_entry mr)
                  (filter (\<lambda>m. spec_field_kind m \<in> set (map sf_kind SPECIFICATION)) (matches mr)))
                rs))
   \<and> ((\<forall>mr \<in> set rs. \<forall>m \<in> set (matches mr).
          spec_field_kind m \<in> set (map sf_kind SPECIFICATION)) \<longrightarrow>
        mset (concat (map (\<lambda>f. map (Pair (psf_kind f)) (psf_matches f))
                        (butlast (populateSpecFields rs))))
          = mset (concat (map (\<lambda>mr. map (tagged_entry mr) (matches mr)) rs)))
   \<and> distinct (map sf_kind SPECIFICATION)
   \<and> ''UNRECOGNIZED'' \<notin> set (map sf_kind SPECIFICATION)
   \<and> (\<forall>t. \<forall>m \<in> set (matches (parseToken t)).
          spec_field_kind m \<in> set (map sf_kind SPECIFICATION))"
proof (intro conjI)
  show "map psf_kind (populateSpecFields rs) = map sf_kind SPECIFICATION @ [''UNRECOGNIZED'']"
    by (simp add: populateSpecFields_def comp_def)
  show "psf_matches (last (populateSpecFields rs)) =
       map (\<lambda>mr. \<lparr>pm_kind = ''UNRECOGNIZED'', pm_token = token mr, pm_value = token mr\<rparr>)
           (filter (\<lambda>mr. matches mr = []) rs)"
    by (simp add: populateSpecFields_def unrecognized_entries_def)
  have "concat (map (\<lambda>f. map (Pair (psf_kind f)) (psf_matches f)) (butlast (populateSpecFields rs)))
      = concat (map (\<lambda>k. map (Pair k) (field_entries k rs)) (map sf_kind SPECIFICATION))"
    by (simp add: butlast_populate comp_def)
  then show general: "mset (concat (map (\<lambda>f. map (Pair (psf_kind f)) (psf_matches f))
                        (butlast (populateSpecFields rs))))
       = mset (concat (map (\<lambda>mr. map (tagged_entry mr)
                  (filter (\<lambda>m. spec_field_kind m \<in> set (map sf_kind SPECIFICATION)) (matches mr)))
                rs))"
    using tagged_kinds [OF catalog_kinds_distinct, of rs] by simp
  show "(\<forall>mr \<in> set rs. \<forall>m \<in> set (matches mr).
          spec_field_kind m \<in> set (map sf_kind SPECIFICATION)) \<longrightarrow>
        mset (concat (map (\<lambda>f. map (Pair (psf_kind f)) (psf_matches f))
                        (butlast (populateSpecFields rs))))
          = mset (concat (map (\<lambda>mr. map (tagged_entry mr) (matches mr)) rs))"
  proof
    assume wf: "\<forall>mr \<in> set rs. \<forall>m \<in> set (matches mr).
          spec_field_kind m \<in> set (map sf_kind SPECIFICATION)"
    have eq: "map (\<lambda>mr. map (tagged_entry mr)
                  (filter (\<lambda>m. spec_field_kind m \<in> set (map sf_kind SPECIFICATION)) (matches mr))) rs
        = map (\<lambda>mr. map (tagged_entry mr) (matches mr)) rs"
      using wf by (intro map_cong refl arg_cong [where f = "map (tagged_entry _)"]) (simp add: filter_id_conv)
    show "mset (concat (map (\<lambda>f. map (Pair (psf_kind f)) (psf_matches f))
                        (butlast (populateSpecFields rs))))
          = mset (concat (map (\<lambda>mr. map (tagged_entry mr) (matches mr)) rs))"
      using general unfolding eq .
  qed
  show "distinct (map sf_kind SPECIFICATION)" by (rule catalog_kinds_distinct)
  show "''UNRECOGNIZED'' \<notin> set (map sf_kind SPECIFICATION)"
    unfolding catalog_kinds by simp
  show "\<forall>t. \<forall>m \<in> set (matches (parseToken t)).
          spec_field_kind m \<in> set (map sf_kind SPECIFICATION)"
    using parseToken_kinds by (metis filter_id_conv)
qed

text \<open>The results of \<open>CS\<close> (one MATERIAL match) and \<open>RF\<close> (no match).\<close>

theorem C7_witness:
  "mset (concat (map (\<lambda>f. map (Pair (psf_kind f)) (psf_matches f))
                     (butlast (populateSpecFields [parseToken ''CS'', parseToken ''RF'']))))
     = {#(''MATERIAL'', \<lparr>pm_kind = ''CARBON STEEL'', pm_token = ''CS'', pm_value = ''CARBON STEEL''\<rparr>)#}
   \<and> psf_matches (last (populateSpecFields [parseToken ''CS'', parseToken ''RF'']))
       = [\<lparr>pm_kind = ''UNRECOGNIZED'', pm_token = ''RF'', pm_value = ''RF''\<rparr>]"
proof -
  let ?rs = "[parseToken ''CS'', parseToken ''RF'']"
  have cs: "parseToken ''CS'' = \<lparr>token = ''CS'', matches =
      [\<lparr>spec_field_kind = ''MATERIAL'', field_match_kind = ''CARBON STEEL'',
        standardized_value = ''CARBON STEEL''\<rparr>]\<rparr>"
    by code_simp
  have rf: "parseToken ''RF'' = \<lparr>token = ''RF'', matches = []\<rparr>"
    by code_simp
  have wf: "\<forall>mr \<in> set ?rs. \<forall>m \<in> set (matches mr).
          spec_field_kind m \<in> set (map sf_kind SPECIFICATION)"
    by (simp add: cs rf catalog_kinds)
  from C7_partition [of ?rs] wf
  have "mset (concat (map (\<lambda>f. map (Pair (psf_kind f)) (psf_matches f))
                        (butlast (populateSpecFields ?rs))))
          = mset (concat (map (\<lambda>mr. map (tagged_entry mr) (matches mr)) ?rs))"
    and "psf_matches (last (populateSpecFields ?rs)) =
       map (\<lambda>mr. \<lparr>pm_kind = ''UNRECOGNIZED'', pm_token = token mr, pm_value = token mr\<rparr>)
           (filter (\<lambda>mr. matches mr = []) ?rs)"
    by blast+
  then show ?thesis
    by (simp add: cs rf tagged_entry_def)
qed

end
